theory Spec2Isabelle
  imports Main "HOL-Library.Sublist"
begin

section \<open>Text and the two timecode patterns\<close>

text \<open>
  A line of text is a \<open>string\<close>, one \<open>char\<close> per character of the Python \<open>str\<close>; the
  model covers the characters with code points below 256. Among those, the characters
  that \<open>\d\<close> of the \<open>re\<close> module accepts are the ten ASCII digits.
\<close>

definition is_digit :: "char \<Rightarrow> bool" where
  "is_digit c = (c \<in> set ''0123456789'')"

text \<open>
  Both patterns of \<open>vtt_processor.py\<close> are sequences of single-character tests, some of
  them enclosed in capture groups; there is no alternation and no variable repetition
  (\<open>\d{2}\<close> is two digit tests). A pattern is therefore a list of items, each a run of
  atoms that is either a capture group or not.
\<close>

datatype atom = Digit | Lit char

datatype item = Group "atom list" | Plain "atom list"

fun atom_ok :: "atom \<Rightarrow> char \<Rightarrow> bool" where
  "atom_ok Digit c = is_digit c"
| "atom_ok (Lit l) c = (c = l)"

fun item_atoms :: "item \<Rightarrow> atom list" where
  "item_atoms (Group as) = as"
| "item_atoms (Plain as) = as"

definition atoms :: "item list \<Rightarrow> atom list" where
  "atoms p = concat (map item_atoms p)"

text \<open>\<open>(\d{2}):(\d{2}):(\d{2}\.\d{3}) --> (\d{2}):(\d{2}):(\d{2}\.\d{3})\<close>\<close>

definition VTT_TIMECODE_PATTERN :: "item list" where
  "VTT_TIMECODE_PATTERN =
    [Group [Digit, Digit], Plain [Lit CHR '':''],
     Group [Digit, Digit], Plain [Lit CHR '':''],
     Group [Digit, Digit, Lit CHR ''.'', Digit, Digit, Digit],
     Plain (map Lit '' --> ''),
     Group [Digit, Digit], Plain [Lit CHR '':''],
     Group [Digit, Digit], Plain [Lit CHR '':''],
     Group [Digit, Digit, Lit CHR ''.'', Digit, Digit, Digit]]"

text \<open>\<open>(\d{2}):(\d{2}):(\d{2}),(\d{3})\<close>\<close>

definition SRT_TIMECODE_PATTERN :: "item list" where
  "SRT_TIMECODE_PATTERN =
    [Group [Digit, Digit], Plain [Lit CHR '':''],
     Group [Digit, Digit], Plain [Lit CHR '':''],
     Group [Digit, Digit], Plain [Lit CHR '',''],
     Group [Digit, Digit, Digit]]"

subsection \<open>Matching, searching and substituting\<close>

text \<open>\<open>match_here as s\<close>: the atoms match a prefix of \<open>s\<close> (a match starting at offset 0).\<close>

fun match_here :: "atom list \<Rightarrow> string \<Rightarrow> bool" where
  "match_here [] s = True"
| "match_here (a # as) [] = False"
| "match_here (a # as) (c # cs) = (atom_ok a c \<and> match_here as cs)"

text \<open>
  \<open>pattern.search(line)\<close>: the start offset of the leftmost match, \<open>None\<close> when there is
  none. The matched text, \<open>match.group(0)\<close>, is \<open>matched p line i\<close>.
\<close>

fun search :: "atom list \<Rightarrow> string \<Rightarrow> nat option" where
  "search as [] = (if match_here as [] then Some 0 else None)"
| "search as (c # cs) =
     (if match_here as (c # cs) then Some 0 else map_option Suc (search as cs))"

definition matched :: "atom list \<Rightarrow> string \<Rightarrow> nat \<Rightarrow> string" where
  "matched as line i = take (length as) (drop i line)"

text \<open>
  \<open>match.group(k)\<close> for \<open>k \<ge> 1\<close>, read from the matched text \<open>m\<close>: the capture groups
  of a pattern lie at fixed offsets.
\<close>

fun group_spans :: "item list \<Rightarrow> nat \<Rightarrow> (nat \<times> nat) list" where
  "group_spans [] off = []"
| "group_spans (Group as # p) off = (off, length as) # group_spans p (off + length as)"
| "group_spans (Plain as # p) off = group_spans p (off + length as)"

definition group :: "item list \<Rightarrow> string \<Rightarrow> nat \<Rightarrow> string" where
  "group p m k = (case group_spans p 0 ! (k - 1) of (off, len) \<Rightarrow> take len (drop off m))"

text \<open>
  \<open>pattern.sub(repl, line)\<close> with a function \<open>repl\<close> of the matched text: the line is
  scanned from the left, every match found is replaced and the scan goes on behind it, so
  the matches replaced do not overlap. The patterns here are not empty, so a match is
  never empty and the empty line has none.
\<close>

fun sub :: "atom list \<Rightarrow> (string \<Rightarrow> string) \<Rightarrow> string \<Rightarrow> string" where
  "sub as repl [] = []"
| "sub as repl (c # cs) =
     (if match_here as (c # cs)
      then repl (take (length as) (c # cs)) @ sub as repl (drop (length as - 1) cs)
      else c # sub as repl cs)"

subsection \<open>FileProcessor.adjust_timecode_vtt\<close>

text \<open>
  \<open>new_timecode\<close> is the f-string built from groups 2, 3, 5 and 6 of the first match.
  \<open>sub\<close> is then called with this string as the replacement template; a template is
  taken literally unless it holds a backslash, and this one never does
  (\<open>new_timecode_no_backslash\<close> below), so every match is replaced by the same text.
\<close>

definition new_timecode :: "string \<Rightarrow> string" where
  "new_timecode m =
     (let mm1 = group VTT_TIMECODE_PATTERN m 2; ss1 = group VTT_TIMECODE_PATTERN m 3;
          mm2 = group VTT_TIMECODE_PATTERN m 5; ss2 = group VTT_TIMECODE_PATTERN m 6
      in ''00:'' @ mm1 @ '':'' @ ss1 @ '' --> 00:'' @ mm2 @ '':'' @ ss2)"

definition adjust_timecode_vtt :: "string \<Rightarrow> string" where
  "adjust_timecode_vtt line =
     (case search (atoms VTT_TIMECODE_PATTERN) line of
        Some i \<Rightarrow>
          sub (atoms VTT_TIMECODE_PATTERN)
            (\<lambda>_. new_timecode (matched (atoms VTT_TIMECODE_PATTERN) line i)) line
      | None \<Rightarrow> line)"

subsection \<open>The comma-to-period rewrite of convert_srt_to_vtt\<close>

text \<open>
  \<open>SRT_TIMECODE_PATTERN.sub(lambda m: f"{m.group(1)}:{m.group(2)}:{m.group(3)}.{m.group(4)}", line)\<close>
\<close>

definition srt_repl :: "string \<Rightarrow> string" where
  "srt_repl m =
     group SRT_TIMECODE_PATTERN m 1 @ '':'' @ group SRT_TIMECODE_PATTERN m 2 @ '':'' @
     group SRT_TIMECODE_PATTERN m 3 @ ''.'' @ group SRT_TIMECODE_PATTERN m 4"

definition srt_punctuate :: "string \<Rightarrow> string" where
  "srt_punctuate line = sub (atoms SRT_TIMECODE_PATTERN) srt_repl line"

subsection \<open>Notions used to state the properties\<close>

text \<open>An occurrence of a pattern in a line: an offset at which the pattern matches.\<close>

definition occurs_at :: "atom list \<Rightarrow> string \<Rightarrow> nat \<Rightarrow> bool" where
  "occurs_at as line i = match_here as (drop i line)"

text \<open>All occurrences in a line, overlapping ones included, in increasing order.\<close>

definition occurrences :: "atom list \<Rightarrow> string \<Rightarrow> nat list" where
  "occurrences as line = filter (occurs_at as line) [0..<length line]"

text \<open>
  The start offsets of the matches that \<open>sub\<close> replaces, in the order of the scan (what
  \<open>pattern.finditer(line)\<close> enumerates): it follows the recursion of \<open>sub\<close>.
\<close>

fun sub_positions :: "atom list \<Rightarrow> string \<Rightarrow> nat list" where
  "sub_positions as [] = []"
| "sub_positions as (c # cs) =
     (if match_here as (c # cs)
      then 0 # map (\<lambda>j. j + length as) (sub_positions as (drop (length as - 1) cs))
      else map Suc (sub_positions as cs))"

text \<open>
  The hour fields of a matched VTT range are its characters 0, 1 (start) and 17, 18 (end).
  \<open>zero_hours m\<close> sets them to \<open>00\<close> and changes nothing else.
\<close>

definition zero_hours :: "string \<Rightarrow> string" where
  "zero_hours m = m[0 := CHR ''0'', 1 := CHR ''0'', 17 := CHR ''0'', 18 := CHR ''0'']"


text \<open>
  Two texts have the same shape when they agree except that a digit may stand where
  another digit stood. A pattern whose literals are not digits cannot tell them apart.
\<close>

definition same_shape :: "string \<Rightarrow> string \<Rightarrow> bool" where
  "same_shape s t = list_all2 (\<lambda>a b. a = b \<or> (is_digit a \<and> is_digit b)) s t"

fun lit_ok :: "atom \<Rightarrow> bool" where
  "lit_ok Digit = True"
| "lit_ok (Lit l) = (\<not> is_digit l)"

section \<open>Files and the two file operations\<close>

text \<open>
  A file system maps a path to what is there: a text file, held as the text that Python's
  text layer reads from it and writes to it, or an entry on which \<open>open\<close> raises (a
  directory, for instance). \<open>open(path, "r")\<close> raises on a missing path as well;
  \<open>open(path, "w")\<close> creates a missing file and empties an existing one. Reading and
  writing an opened file do not fail in the model.
\<close>

datatype node = File string | Dir

type_synonym fs = "string \<rightharpoonup> node"

definition open_read :: "fs \<Rightarrow> string \<Rightarrow> string option" where
  "open_read fs path = (case fs path of Some (File text) \<Rightarrow> Some text | _ \<Rightarrow> None)"

definition open_write :: "fs \<Rightarrow> string \<Rightarrow> fs option" where
  "open_write fs path = (case fs path of Some Dir \<Rightarrow> None | _ \<Rightarrow> Some (fs(path \<mapsto> File [])))"

text \<open>\<open>for line in file\<close>: the lines of a text, each with its newline, the last maybe without.\<close>

fun file_lines :: "string \<Rightarrow> string list" where
  "file_lines [] = []"
| "file_lines (c # cs) =
     (if c = CHR 0x0A then [c] # file_lines cs
      else (case file_lines cs of [] \<Rightarrow> [[c]] | l # ls \<Rightarrow> (c # l) # ls))"

text \<open>\<open>"WEBVTT\n\n"\<close>\<close>

definition WEBVTT_header :: string where
  "WEBVTT_header = ''WEBVTT\<newline>\<newline>''"

text \<open>
  The loop of \<open>convert_srt_to_vtt\<close>; the state is the text written to \<open>vtt_file\<close> so far.
\<close>

fun convert_lines :: "string \<Rightarrow> string list \<Rightarrow> string" where
  "convert_lines written [] = written"
| "convert_lines written (line # rest) = convert_lines (written @ srt_punctuate line) rest"

text \<open>
  \<open>convert_srt_to_vtt(input_path, output_path)\<close>: both files are opened, the input first;
  an exception of either \<open>open\<close> is caught and the result is \<open>False\<close>. The input is read
  only after the output has been opened and emptied, so when both paths name the same
  file the loop reads no line.
\<close>

definition convert_srt_to_vtt :: "fs \<Rightarrow> string \<Rightarrow> string \<Rightarrow> bool \<times> fs" where
  "convert_srt_to_vtt fs input_path output_path =
     (case open_read fs input_path of
        None \<Rightarrow> (False, fs)
      | Some text \<Rightarrow>
          (case open_write fs output_path of
             None \<Rightarrow> (False, fs)
           | Some fs' \<Rightarrow>
               (let srt_file = file_lines (if output_path = input_path then [] else text)
                in (True, fs'(output_path \<mapsto> File (convert_lines WEBVTT_header srt_file))))))"

text \<open>The loop of \<open>process_vtt_file\<close> and the function itself, in the same way.\<close>

fun adjust_lines :: "string \<Rightarrow> string list \<Rightarrow> string" where
  "adjust_lines written [] = written"
| "adjust_lines written (line # rest) = adjust_lines (written @ adjust_timecode_vtt line) rest"

definition process_vtt_file :: "fs \<Rightarrow> string \<Rightarrow> string \<Rightarrow> bool \<times> fs" where
  "process_vtt_file fs input_path output_path =
     (case open_read fs input_path of
        None \<Rightarrow> (False, fs)
      | Some text \<Rightarrow>
          (case open_write fs output_path of
             None \<Rightarrow> (False, fs)
           | Some fs' \<Rightarrow>
               (let infile = file_lines (if output_path = input_path then [] else text)
                in (True, fs'(output_path \<mapsto> File (adjust_lines [] infile))))))"

section \<open>File names\<close>

text \<open>
  \<open>s.replace(old, new)\<close> for a non-empty \<open>old\<close>: every occurrence found scanning from the
  left is replaced, wherever in \<open>s\<close> it stands.
\<close>

fun replace :: "string \<Rightarrow> string \<Rightarrow> string \<Rightarrow> string" where
  "replace old new [] = []"
| "replace old new (c # cs) =
     (if prefix old (c # cs) then new @ replace old new (drop (length old - 1) cs)
      else c # replace old new cs)"

text \<open>\<open>str.strip()\<close>: the whitespace characters below code point 256.\<close>

definition is_space :: "char \<Rightarrow> bool" where
  "is_space c = (c \<in> set [CHR 0x09, CHR 0x0A, CHR 0x0B, CHR 0x0C, CHR 0x0D, CHR 0x1C,
     CHR 0x1D, CHR 0x1E, CHR 0x1F, CHR 0x20, CHR 0x85, CHR 0xA0])"

definition strip :: "string \<Rightarrow> string" where
  "strip s = rev (dropWhile is_space (rev (dropWhile is_space s)))"

text \<open>\<open>str.lower()\<close> below code point 256: the ASCII and the Latin-1 capital letters.\<close>

definition lower_char :: "char \<Rightarrow> char" where
  "lower_char c =
     (let n = (of_char c :: nat)
      in if (65 \<le> n \<and> n \<le> 90) \<or> (192 \<le> n \<and> n \<le> 222 \<and> n \<noteq> 215)
         then char_of (n + 32) else c)"

definition lower :: "string \<Rightarrow> string" where
  "lower s = map lower_char s"

text \<open>\<open>f"{index}"\<close>: the decimal digits of a natural number.\<close>

fun str :: "nat \<Rightarrow> string" where
  "str n = (if n < 10 then [''0123456789'' ! n] else str (n div 10) @ [''0123456789'' ! (n mod 10)])"

declare str.simps [simp del]

text \<open>
  The base name under which an input file is renamed, as \<open>process_files\<close> derives it in
  both of its branches.
\<close>

definition base_name :: "string \<Rightarrow> string \<Rightarrow> string" where
  "base_name choice file_name =
     (if choice = ''vtt'' then replace ''.vtt'' [] (replace ''.mp4.vtt'' [] file_name)
      else replace ''.srt'' [] file_name)"

text \<open>
  The options of the window that the batch reads, and what it takes from its
  surroundings: the directory listing, the processor count, the answer typed into the
  rename dialog for the file of a given index (\<open>None\<close> when the dialog is cancelled),
  \<open>os.path.join\<close>, and, for a task handed to the thread pool, the value that
  \<open>future.result()\<close> returns for it.
\<close>

record config =
  rename_var :: bool
  sequential_var :: bool
  prefix_var :: string
  use_threads_var :: bool

record env =
  listdir :: "string list"
  cpu_count :: "nat option"
  askstring :: "nat \<Rightarrow> string option"
  path_join :: "string \<Rightarrow> string \<Rightarrow> string"
  future_result :: "nat \<Rightarrow> string \<times> string \<Rightarrow> bool"

text \<open>\<open>posixpath.join\<close> of two components, for concrete runs.\<close>

definition posix_join :: "string \<Rightarrow> string \<Rightarrow> string" where
  "posix_join a b =
     (if prefix ''/'' b then b
      else if a = [] \<or> suffix ''/'' a then a @ b
      else a @ ''/'' @ b)"

definition rename_file :: "config \<Rightarrow> env \<Rightarrow> string \<Rightarrow> string \<Rightarrow> nat \<Rightarrow> string" where
  "rename_file cfg e output_directory file_name index =
     (if sequential_var cfg then
        (let prefix = strip (prefix_var cfg);
             new_name = (if prefix \<noteq> [] then prefix @ str index else str index)
         in path_join e output_directory (new_name @ ''.vtt''))
      else if rename_var cfg then
        (let new_name =
               (case askstring e index of
                  None \<Rightarrow> file_name
                | Some answer \<Rightarrow>
                    if strip answer = [] then file_name else strip answer @ ''_'' @ str index)
         in path_join e output_directory (new_name @ ''.vtt''))
      else path_join e output_directory (file_name @ ''_'' @ str index @ ''.vtt''))"

text \<open>
  The naming rule as the specification words it: three policies, sequential numbering
  before interactive rename before the default, with the configured prefix and the
  supplied name taken as they are.
\<close>

definition spec_output_name :: "config \<Rightarrow> string option \<Rightarrow> string \<Rightarrow> nat \<Rightarrow> string" where
  "spec_output_name cfg answer base index =
     (if sequential_var cfg then prefix_var cfg @ str index @ ''.vtt''
      else if rename_var cfg then
        (case answer of
           None \<Rightarrow> base @ ''.vtt''
         | Some supplied \<Rightarrow>
             if strip supplied = [] then base @ ''.vtt''
             else supplied @ ''_'' @ str index @ ''.vtt'')
      else base @ ''_'' @ str index @ ''.vtt'')"

text \<open>The same with the prefix and the supplied name stripped of surrounding whitespace.\<close>

definition stripped_output_name :: "config \<Rightarrow> string option \<Rightarrow> string \<Rightarrow> nat \<Rightarrow> string" where
  "stripped_output_name cfg answer base index =
     (if sequential_var cfg then strip (prefix_var cfg) @ str index @ ''.vtt''
      else if rename_var cfg then
        (case answer of
           None \<Rightarrow> base @ ''.vtt''
         | Some supplied \<Rightarrow>
             if strip supplied = [] then base @ ''.vtt''
             else strip supplied @ ''_'' @ str index @ ''.vtt'')
      else base @ ''_'' @ str index @ ''.vtt'')"

text \<open>
  The base name as the specification words it: a trailing \<open>.mp4.vtt\<close> removed if
  present, else a trailing \<open>.vtt\<close>; for the conversion a trailing \<open>.srt\<close>.
\<close>

definition strip_suffix :: "string \<Rightarrow> string \<Rightarrow> string" where
  "strip_suffix suf s = (if suffix suf s then take (length s - length suf) s else s)"

definition spec_base_name :: "string \<Rightarrow> string \<Rightarrow> string" where
  "spec_base_name choice file_name =
     (if choice = ''vtt'' then
        (if suffix ''.mp4.vtt'' file_name then strip_suffix ''.mp4.vtt'' file_name
         else strip_suffix ''.vtt'' file_name)
      else strip_suffix ''.srt'' file_name)"

section \<open>The batch\<close>

text \<open>The files \<open>process_files\<close> selects from the listing, in the listing's order.\<close>

definition select_files :: "string \<Rightarrow> string list \<Rightarrow> string list" where
  "select_files choice names =
     (if choice = ''vtt'' then filter (\<lambda>f. suffix ''.vtt'' (lower f)) names
      else filter (\<lambda>f. suffix ''.srt'' (lower f)) names)"

text \<open>\<open>enumerate(files, start=1)\<close>\<close>

definition enumerate1 :: "'a list \<Rightarrow> (nat \<times> 'a) list" where
  "enumerate1 xs = zip [1..<Suc (length xs)] xs"

text \<open>\<open>min(os.cpu_count() or 2, 4)\<close>: \<open>or\<close> takes its right operand for \<open>None\<close> and for 0.\<close>

definition max_workers :: "nat option \<Rightarrow> nat" where
  "max_workers cpus = min (case cpus of None \<Rightarrow> 2 | Some n \<Rightarrow> if n = 0 then 2 else n) 4"

text \<open>
  The state of either loop: the file system, the two counters, and the status updates
  \<open>Processed: c, Failed: f\<close> sent to the window, one after each file, oldest first.
\<close>

record batch_state =
  files_now :: fs
  processed_count :: nat
  failed_count :: nat
  status_updates :: "(nat \<times> nat) list"

definition count_result :: "bool \<Rightarrow> batch_state \<Rightarrow> batch_state" where
  "count_result result st =
     (let c = (if result then processed_count st + 1 else processed_count st);
          f = (if result then failed_count st else failed_count st + 1)
      in st\<lparr>processed_count := c, failed_count := f,
            status_updates := status_updates st @ [(c, f)]\<rparr>)"

text \<open>One file's task: the operation chosen, on the paths computed for the file.\<close>

definition run_task :: "string \<Rightarrow> fs \<Rightarrow> string \<times> string \<Rightarrow> bool \<times> fs" where
  "run_task choice fs task =
     (if choice = ''vtt'' then process_vtt_file fs (fst task) (snd task)
      else convert_srt_to_vtt fs (fst task) (snd task))"

definition task_paths ::
  "config \<Rightarrow> env \<Rightarrow> string \<Rightarrow> string \<Rightarrow> string \<Rightarrow> nat \<times> string \<Rightarrow> string \<times> string" where
  "task_paths cfg e choice input_dir output_dir entry =
     (case entry of (index, file_name) \<Rightarrow>
        (path_join e input_dir file_name,
         rename_file cfg e output_dir (base_name choice file_name) index))"

text \<open>
  The sequential branch: each file is renamed, processed and counted in turn.
  \<open>sequential_step\<close> is the body of the loop.
\<close>

definition sequential_step ::
  "config \<Rightarrow> env \<Rightarrow> string \<Rightarrow> string \<Rightarrow> string \<Rightarrow> nat \<times> string \<Rightarrow>
   batch_state \<Rightarrow> batch_state" where
  "sequential_step cfg e choice input_dir output_dir entry st =
     (case run_task choice (files_now st) (task_paths cfg e choice input_dir output_dir entry) of
        (result, fs') \<Rightarrow> count_result result (st\<lparr>files_now := fs'\<rparr>))"

fun sequential_loop ::
  "config \<Rightarrow> env \<Rightarrow> string \<Rightarrow> string \<Rightarrow> string \<Rightarrow> (nat \<times> string) list \<Rightarrow>
   batch_state \<Rightarrow> batch_state" where
  "sequential_loop cfg e choice input_dir output_dir [] st = st"
| "sequential_loop cfg e choice input_dir output_dir (entry # rest) st =
     sequential_loop cfg e choice input_dir output_dir rest
       (sequential_step cfg e choice input_dir output_dir entry st)"

text \<open>
  The pooled branch: every file's task is submitted, then the results of the futures are
  counted in the order of submission. What a worker's task returns depends on how the
  workers interleave, so it is taken from the surroundings; so is the file system the
  workers leave, which the state here does not follow.
\<close>

fun collect_futures :: "env \<Rightarrow> (nat \<times> string \<times> string) list \<Rightarrow> batch_state \<Rightarrow> batch_state" where
  "collect_futures e [] st = st"
| "collect_futures e ((i, task) # rest) st =
     collect_futures e rest (count_result (future_result e i task) st)"

text \<open>Both counters start at 0 and no status update has been sent.\<close>

definition initial_state :: "fs \<Rightarrow> batch_state" where
  "initial_state fs =
     \<lparr>files_now = fs, processed_count = 0, failed_count = 0, status_updates = []\<rparr>"

text \<open>
  \<open>process_files\<close>: \<open>None\<close> is the notice that no file matched; otherwise the size of the
  thread pool, if one was used, and the final state, whose counters the completion
  message shows.
\<close>

definition process_files ::
  "config \<Rightarrow> env \<Rightarrow> fs \<Rightarrow> string \<Rightarrow> string \<Rightarrow> string \<Rightarrow> (nat option \<times> batch_state) option" where
  "process_files cfg e fs choice input_dir output_dir =
     (let files = select_files choice (listdir e);
          total_files = length files;
          st = initial_state fs
      in if total_files = 0 then None
         else if use_threads_var cfg \<and> total_files > 1 then
           (let futures = map (task_paths cfg e choice input_dir output_dir) (enumerate1 files)
            in Some (Some (max_workers (cpu_count e)),
                     collect_futures e (zip [0..<length futures] futures) st))
         else
           Some (None, sequential_loop cfg e choice input_dir output_dir (enumerate1 files) st))"


section \<open>Concrete runs\<close>

text \<open>
  Surroundings for the concrete runs below: a POSIX \<open>os.path.join\<close>, a rename dialog
  that is cancelled every time unless said otherwise, and pool workers that all succeed.
\<close>

definition run_env :: "string list \<Rightarrow> nat option \<Rightarrow> env" where
  "run_env names cpus =
     \<lparr>listdir = names, cpu_count = cpus, askstring = (\<lambda>_. None),
      path_join = posix_join, future_result = (\<lambda>_ _. True)\<rparr>"

definition default_config :: config where
  "default_config =
     \<lparr>rename_var = False, sequential_var = False, prefix_var = [], use_threads_var = False\<rparr>"

text \<open>
  An input directory in which \<open>a.vtt\<close> cannot be opened (it is a directory) and \<open>b.vtt\<close>
  is a one-cue VTT file.
\<close>

definition broken_then_good :: fs where
  "broken_then_good =
     [''in/a.vtt'' \<mapsto> Dir,
      ''in/b.vtt'' \<mapsto> File ''01:02:03.456 --> 01:02:05.789\<newline>Hello\<newline>'']"

text \<open>The SRT file of the specification's conversion scenario.\<close>

definition clip_srt :: fs where
  "clip_srt =
     [''in/clip.srt'' \<mapsto> File ''1\<newline>00:00:01,000 --> 00:00:02,500\<newline>Hi\<newline>\<newline>'']"

section \<open>Properties of matching and substitution\<close>

lemma same_shape_refl [simp]: "same_shape s s"
  by (simp add: same_shape_def list_all2_refl)

lemma same_shape_Cons [simp]:
  "same_shape (a # s) (b # t) = ((a = b \<or> (is_digit a \<and> is_digit b)) \<and> same_shape s t)"
  by (simp add: same_shape_def)

lemma same_shape_Nil [simp]: "same_shape [] t = (t = [])" "same_shape s [] = (s = [])"
  by (simp_all add: same_shape_def)

lemma same_shape_append:
  "same_shape s t \<Longrightarrow> same_shape u v \<Longrightarrow> same_shape (s @ u) (t @ v)"
  by (simp add: same_shape_def list_all2_appendI)

lemma atom_ok_shape:
  "lit_ok a \<Longrightarrow> c = d \<or> (is_digit c \<and> is_digit d) \<Longrightarrow> atom_ok a c = atom_ok a d"
  by (cases a) auto

lemma match_here_shape:
  "list_all lit_ok as \<Longrightarrow> same_shape s t \<Longrightarrow> match_here as s = match_here as t"
proof (induction as s arbitrary: t rule: match_here.induct)
  case (1 s)
  then show ?case by simp
next
  case (2 a as)
  then show ?case by simp
next
  case (3 a as c cs)
  from "3.prems"(2) obtain d ds where t: "t = d # ds"
    by (cases t) simp_all
  with "3.prems" have cd: "c = d \<or> (is_digit c \<and> is_digit d)" and sh: "same_shape cs ds"
    by simp_all
  from "3.prems"(1) have la: "lit_ok a" and las: "list_all lit_ok as"
    by simp_all
  show ?case
    using "3.IH"[OF las sh] atom_ok_shape[OF la cd] by (simp add: t)
qed

lemma match_here_length: "match_here as s \<Longrightarrow> length as \<le> length s"
  by (induction as s rule: match_here.induct) auto

lemma match_here_append: "length as \<le> length m \<Longrightarrow> match_here as (m @ r) = match_here as m"
  by (induction as m rule: match_here.induct) auto

lemma match_here_take: "match_here as s \<Longrightarrow> match_here as (take (length as) s)"
  by (induction as s rule: match_here.induct) auto

lemma match_both_shape:
  "list_all lit_ok as \<Longrightarrow> match_here as m \<Longrightarrow> match_here as t \<Longrightarrow>
   length m = length as \<Longrightarrow> length t = length as \<Longrightarrow> same_shape t m"
proof (induction as m arbitrary: t rule: match_here.induct)
  case (1 s)
  then show ?case by simp
next
  case (2 a as)
  then show ?case by simp
next
  case (3 a as c cs)
  from "3.prems"(3) obtain d ds where t: "t = d # ds"
    by (cases t) simp_all
  have "same_shape ds cs"
    using "3.IH"[of ds] "3.prems" by (simp add: t)
  moreover have "d = c \<or> (is_digit d \<and> is_digit c)"
    using "3.prems" by (cases a) (auto simp: t)
  ultimately show ?case by (simp add: t)
qed

lemma sub_list_all2:
  assumes ne: "as \<noteq> []"
    and refl: "\<And>c. R c c"
    and repl: "\<And>m. match_here as m \<Longrightarrow> length m = length as \<Longrightarrow> list_all2 R (repl m) m"
  shows "list_all2 R (sub as repl s) s"
proof (induction "length s" arbitrary: s rule: less_induct)
  case less
  show ?case
  proof (cases s)
    case Nil
    then show ?thesis by simp
  next
    case (Cons c cs)
    show ?thesis
    proof (cases "match_here as s")
      case True
      let ?n = "length as"
      from ne have n: "0 < ?n" by simp
      have len: "?n \<le> length s" using True by (rule match_here_length)
      have d: "drop (?n - 1) cs = drop ?n s"
        using n by (simp add: Cons drop_Cons')
      have "length (drop ?n s) < length s" using n Cons by simp
      then have ih: "list_all2 R (sub as repl (drop ?n s)) (drop ?n s)" by (rule less)
      have m: "list_all2 R (repl (take ?n s)) (take ?n s)"
        using match_here_take[OF True] len by (intro repl) simp_all
      have "sub as repl s = repl (take ?n s) @ sub as repl (drop ?n s)"
        using True d by (simp add: Cons)
      moreover have "list_all2 R (repl (take ?n s) @ sub as repl (drop ?n s)) (take ?n s @ drop ?n s)"
        using m ih by (rule list_all2_appendI)
      ultimately show ?thesis by simp
    next
      case False
      have "length cs < length s" by (simp add: Cons)
      then have "list_all2 R (sub as repl cs) cs" by (rule less)
      then show ?thesis using False refl by (simp add: Cons)
    qed
  qed
qed

lemma sub_shape:
  assumes "as \<noteq> []"
    and "\<And>m. match_here as m \<Longrightarrow> length m = length as \<Longrightarrow> same_shape (repl m) m"
  shows "same_shape (sub as repl s) s"
  unfolding same_shape_def
  by (rule sub_list_all2) (use assms in \<open>simp_all add: same_shape_def\<close>)

lemma search_bound: "search as s = Some i \<Longrightarrow> i + length as \<le> length s"
proof (induction s arbitrary: i)
  case Nil
  then show ?case by (auto split: if_splits dest: match_here_length)
next
  case (Cons c cs)
  then show ?case by (auto split: if_splits dest: match_here_length)
qed

lemma search_match: "search as s = Some i \<Longrightarrow> match_here as (drop i s)"
proof (induction s arbitrary: i)
  case Nil
  then show ?case by (auto split: if_splits)
next
  case (Cons c cs)
  then show ?case by (auto split: if_splits)
qed

lemma search_shape:
  "list_all lit_ok as \<Longrightarrow> same_shape s t \<Longrightarrow> search as s = search as t"
proof (induction s arbitrary: t)
  case Nil
  then show ?case by simp
next
  case (Cons c cs)
  from Cons.prems(2) obtain d ds where t: "t = d # ds"
    by (cases t) simp_all
  have "match_here as (c # cs) = match_here as (d # ds)"
    using Cons.prems by (simp only: t match_here_shape)
  moreover have "search as cs = search as ds"
    using Cons.prems by (intro Cons.IH) (simp_all add: t)
  ultimately show ?case by (simp add: t)
qed

lemma sub_no_match: "as \<noteq> [] \<Longrightarrow> search as s = None \<Longrightarrow> sub as repl s = s"
  by (induction s) (auto split: if_splits)

lemma sub_at_match:
  assumes "as \<noteq> []" "match_here as s"
  shows "sub as repl s = repl (take (length as) s) @ sub as repl (drop (length as) s)"
proof (cases s)
  case Nil
  with assms show ?thesis by (cases as) simp_all
next
  case (Cons c cs)
  with assms show ?thesis by (simp add: drop_Cons')
qed

lemma sub_first:
  "as \<noteq> [] \<Longrightarrow> search as s = Some i \<Longrightarrow>
   sub as repl s = take i s @ repl (matched as s i) @ sub as repl (drop (i + length as) s)"
proof (induction s arbitrary: i)
  case Nil
  then show ?case by (cases as) simp_all
next
  case (Cons c cs)
  show ?case
  proof (cases "match_here as (c # cs)")
    case True
    with Cons.prems have "i = 0" by simp
    with sub_at_match[OF Cons.prems(1) True, of repl] show ?thesis
      by (simp add: matched_def)
  next
    case False
    with Cons.prems obtain j where j: "search as cs = Some j" "i = Suc j"
      by auto
    from Cons.IH[OF Cons.prems(1) j(1)] False show ?thesis
      by (simp add: j matched_def)
  qed
qed

lemma sub_const_idem:
  assumes ne: "as \<noteq> []" and lits: "list_all lit_ok as"
    and T: "match_here as T" "length T = length as"
  shows "sub as (\<lambda>_. T) (sub as (\<lambda>_. T) s) = sub as (\<lambda>_. T) s"
proof (induction "length s" arbitrary: s rule: less_induct)
  case less
  let ?f = "\<lambda>_::string. T"
  have shape: "same_shape (sub as ?f u) u" for u
    using ne by (rule sub_shape) (use lits T in \<open>auto intro: match_both_shape\<close>)
  show ?case
  proof (cases "match_here as s")
    case True
    let ?r = "drop (length as) s"
    have s: "sub as ?f s = T @ sub as ?f ?r"
      using ne True by (rule sub_at_match)
    have "length ?r < length s"
      using ne match_here_length[OF True] by (cases as) simp_all
    then have ih: "sub as ?f (sub as ?f ?r) = sub as ?f ?r" by (rule less)
    have "match_here as (T @ sub as ?f ?r)"
      using T by (simp add: match_here_append)
    from sub_at_match[OF ne this, of ?f] show ?thesis
      using T ih by (simp add: s)
  next
    case False
    show ?thesis
    proof (cases s)
      case Nil
      then show ?thesis by simp
    next
      case (Cons c cs)
      have "same_shape (c # sub as ?f cs) (c # cs)"
        using shape[of cs] by simp
      from match_here_shape[OF lits this] False
      have "\<not> match_here as (c # sub as ?f cs)"
        by (simp add: Cons)
      moreover have "sub as ?f (sub as ?f cs) = sub as ?f cs"
        by (rule less) (simp add: Cons)
      ultimately show ?thesis using False by (simp add: Cons)
    qed
  qed
qed

lemma match_here_ConsE:
  assumes "match_here (a # as) s"
  obtains c cs where "s = c # cs" "atom_ok a c" "match_here as cs"
  using assms by (cases s) auto

lemma vtt_atoms:
  "atoms VTT_TIMECODE_PATTERN =
    [Digit, Digit, Lit CHR '':'', Digit, Digit, Lit CHR '':'', Digit, Digit, Lit CHR ''.'',
     Digit, Digit, Digit, Lit CHR '' '', Lit CHR ''-'', Lit CHR ''-'', Lit CHR ''>'', Lit CHR '' '',
     Digit, Digit, Lit CHR '':'', Digit, Digit, Lit CHR '':'', Digit, Digit, Lit CHR ''.'',
     Digit, Digit, Digit]"
  by (simp add: atoms_def VTT_TIMECODE_PATTERN_def)

lemma srt_atoms:
  "atoms SRT_TIMECODE_PATTERN =
    [Digit, Digit, Lit CHR '':'', Digit, Digit, Lit CHR '':'', Digit, Digit, Lit CHR '','',
     Digit, Digit, Digit]"
  by (simp add: atoms_def SRT_TIMECODE_PATTERN_def)

lemma vtt_length: "length (atoms VTT_TIMECODE_PATTERN) = 29"
  by (simp add: vtt_atoms)

lemma srt_length: "length (atoms SRT_TIMECODE_PATTERN) = 12"
  by (simp add: srt_atoms)

lemma vtt_lits: "list_all lit_ok (atoms VTT_TIMECODE_PATTERN)"
  by (simp add: vtt_atoms is_digit_def)

lemma vtt_match_explicit:
  assumes "match_here (atoms VTT_TIMECODE_PATTERN) s"
  obtains a1 a2 b1 b2 c1 c2 d1 d2 d3 e1 e2 f1 f2 g1 g2 h1 h2 h3 r where
    "s = [a1, a2, CHR '':'', b1, b2, CHR '':'', c1, c2, CHR ''.'', d1, d2, d3,
          CHR '' '', CHR ''-'', CHR ''-'', CHR ''>'', CHR '' '',
          e1, e2, CHR '':'', f1, f2, CHR '':'', g1, g2, CHR ''.'', h1, h2, h3] @ r"
    "list_all is_digit [a1, a2, b1, b2, c1, c2, d1, d2, d3, e1, e2, f1, f2, g1, g2, h1, h2, h3]"
  using assms unfolding vtt_atoms
  by (elim match_here_ConsE) simp

lemma srt_match_explicit:
  assumes "match_here (atoms SRT_TIMECODE_PATTERN) s"
  obtains a1 a2 b1 b2 c1 c2 d1 d2 d3 r where
    "s = [a1, a2, CHR '':'', b1, b2, CHR '':'', c1, c2, CHR '','', d1, d2, d3] @ r"
    "list_all is_digit [a1, a2, b1, b2, c1, c2, d1, d2, d3]"
  using assms unfolding srt_atoms
  by (elim match_here_ConsE) simp

lemma new_timecode_explicit:
  "new_timecode ([a1, a2, CHR '':'', b1, b2, CHR '':'', c1, c2, CHR ''.'', d1, d2, d3,
          CHR '' '', CHR ''-'', CHR ''-'', CHR ''>'', CHR '' '',
          e1, e2, CHR '':'', f1, f2, CHR '':'', g1, g2, CHR ''.'', h1, h2, h3] @ r) =
     [CHR ''0'', CHR ''0'', CHR '':'', b1, b2, CHR '':'', c1, c2, CHR ''.'', d1, d2, d3,
          CHR '' '', CHR ''-'', CHR ''-'', CHR ''>'', CHR '' '',
          CHR ''0'', CHR ''0'', CHR '':'', f1, f2, CHR '':'', g1, g2, CHR ''.'', h1, h2, h3]"
  by (simp add: new_timecode_def group_def VTT_TIMECODE_PATTERN_def)

lemma srt_repl_explicit:
  "srt_repl ([a1, a2, CHR '':'', b1, b2, CHR '':'', c1, c2, CHR '','', d1, d2, d3] @ r) =
     [a1, a2, CHR '':'', b1, b2, CHR '':'', c1, c2, CHR ''.'', d1, d2, d3]"
  by (simp add: srt_repl_def group_def SRT_TIMECODE_PATTERN_def)

lemma sub_positions_at_match:
  assumes "as \<noteq> []" "match_here as s"
  shows "sub_positions as s =
    0 # map (\<lambda>j. j + length as) (sub_positions as (drop (length as) s))"
proof (cases s)
  case Nil
  with assms show ?thesis by (cases as) simp_all
next
  case (Cons c cs)
  with assms show ?thesis by (simp add: drop_Cons')
qed

lemma sub_positions_occur:
  assumes ne: "as \<noteq> []"
  shows "j \<in> set (sub_positions as s) \<Longrightarrow> occurs_at as s j"
proof (induction "length s" arbitrary: s j rule: less_induct)
  case less
  show ?case
  proof (cases "match_here as s")
    case True
    let ?r = "drop (length as) s"
    have shorter: "length ?r < length s"
      using ne match_here_length[OF True] by (cases as) simp_all
    from less.prems sub_positions_at_match[OF ne True]
    consider "j = 0" | k where "k \<in> set (sub_positions as ?r)" "j = k + length as"
      by auto
    then show ?thesis
    proof cases
      case 1
      with True show ?thesis by (simp add: occurs_at_def)
    next
      case 2
      from less.hyps[OF shorter 2(1)] show ?thesis
        by (simp add: occurs_at_def 2(2) add.commute)
    qed
  next
    case False
    show ?thesis
    proof (cases s)
      case Nil
      with less.prems show ?thesis by simp
    next
      case (Cons c cs)
      with less.prems False obtain k where k: "k \<in> set (sub_positions as cs)" "j = Suc k"
        by auto
      have "occurs_at as cs k" by (rule less.hyps) (simp_all add: Cons k)
      then show ?thesis by (simp add: occurs_at_def Cons k)
    qed
  qed
qed

text \<open>An occurrence that does not begin inside a replaced match is itself replaced.\<close>

lemma sub_positions_complete:
  assumes ne: "as \<noteq> []"
  shows "occurs_at as s i \<Longrightarrow>
    (\<forall>j\<in>set (sub_positions as s). \<not> (j < i \<and> i < j + length as)) \<Longrightarrow>
    i \<in> set (sub_positions as s)"
proof (induction "length s" arbitrary: s i rule: less_induct)
  case less
  show ?case
  proof (cases "match_here as s")
    case True
    let ?n = "length as"
    let ?r = "drop ?n s"
    have shorter: "length ?r < length s"
      using ne match_here_length[OF True] by (cases as) simp_all
    note pos = sub_positions_at_match[OF ne True]
    show ?thesis
    proof (cases "i = 0")
      case True
      then show ?thesis by (simp add: pos)
    next
      case False
      from less.prems(2) pos have "\<not> (0 < i \<and> i < ?n)" by auto
      with False have ge: "?n \<le> i" by simp
      define k where "k = i - ?n"
      have i: "i = k + ?n" using ge by (simp add: k_def)
      have occ: "occurs_at as ?r k"
        using less.prems(1) by (simp add: occurs_at_def i add.commute)
      have "\<forall>j\<in>set (sub_positions as ?r). \<not> (j < k \<and> k < j + ?n)"
      proof
        fix j assume "j \<in> set (sub_positions as ?r)"
        then have "j + ?n \<in> set (sub_positions as s)" by (simp add: pos)
        with less.prems(2) have "\<not> (j + ?n < i \<and> i < j + ?n + ?n)" by blast
        then show "\<not> (j < k \<and> k < j + ?n)" by (simp add: i)
      qed
      from less.hyps[OF shorter occ this] show ?thesis
        by (simp add: pos i)
    qed
  next
    case False
    show ?thesis
    proof (cases s)
      case Nil
      with less.prems(1) ne show ?thesis by (cases as) (simp_all add: occurs_at_def)
    next
      case (Cons c cs)
      from False less.prems(1) obtain k where i: "i = Suc k"
        by (cases i) (simp_all add: occurs_at_def)
      have occ: "occurs_at as cs k"
        using less.prems(1) by (simp add: occurs_at_def Cons i)
      have "\<forall>j\<in>set (sub_positions as cs). \<not> (j < k \<and> k < j + length as)"
        using less.prems(2) False by (simp add: Cons i)
      with occ have "k \<in> set (sub_positions as cs)"
        by (intro less.hyps) (simp_all add: Cons)
      then show ?thesis using False by (simp add: Cons i)
    qed
  qed
qed

text \<open>What stands at a replaced position afterwards, for a replacement of the same length.\<close>

lemma sub_at_position:
  assumes ne: "as \<noteq> []"
    and len: "\<And>m. match_here as m \<Longrightarrow> length m = length as \<Longrightarrow> length (repl m) = length as"
  shows "j \<in> set (sub_positions as s) \<Longrightarrow>
    matched as (sub as repl s) j = repl (matched as s j)"
proof (induction "length s" arbitrary: s j rule: less_induct)
  case less
  show ?case
  proof (cases "match_here as s")
    case True
    let ?n = "length as"
    let ?r = "drop ?n s"
    have shorter: "length ?r < length s"
      using ne match_here_length[OF True] by (cases as) simp_all
    have ls: "?n \<le> length s" using True by (rule match_here_length)
    have lr: "length (repl (take ?n s)) = ?n"
      using match_here_take[OF True] ls by (intro len) simp_all
    note s = sub_at_match[OF ne True, of repl]
    from less.prems sub_positions_at_match[OF ne True]
    consider "j = 0" | k where "k \<in> set (sub_positions as ?r)" "j = k + ?n"
      by auto
    then show ?thesis
    proof cases
      case 1
      then show ?thesis by (simp add: matched_def s lr)
    next
      case 2
      from less.hyps[OF shorter 2(1)] show ?thesis
        by (simp add: matched_def s lr 2(2) add.commute)
    qed
  next
    case False
    show ?thesis
    proof (cases s)
      case Nil
      with less.prems show ?thesis by simp
    next
      case (Cons c cs)
      with less.prems False obtain k where k: "k \<in> set (sub_positions as cs)" "j = Suc k"
        by auto
      have "matched as (sub as repl cs) k = repl (matched as cs k)"
        by (rule less.hyps) (simp_all add: Cons k)
      then show ?thesis using False by (simp add: matched_def Cons k)
    qed
  qed
qed

text \<open>\<open>sub\<close> as a sequence of rewrites in place, one at each replaced position.\<close>

lemma foldr_shift:
  assumes "\<And>j t. G (j + length m) (m @ t) = m @ G j t"
  shows "foldr G (map (\<lambda>j. j + length m) ps) (m @ t) = m @ foldr G ps t"
  using assms by (induction ps) simp_all

lemma sub_as_foldr:
  assumes ne: "as \<noteq> []"
    and shift: "\<And>j m t. G (j + length m) (m @ t) = m @ G j t"
    and base: "\<And>m t. match_here as m \<Longrightarrow> length m = length as \<Longrightarrow> G 0 (m @ t) = repl m @ t"
  shows "sub as repl s = foldr G (sub_positions as s) s"
proof (induction "length s" arbitrary: s rule: less_induct)
  case less
  show ?case
  proof (cases "match_here as s")
    case True
    let ?n = "length as"
    let ?m = "take ?n s"
    let ?r = "drop ?n s"
    have shorter: "length ?r < length s"
      using ne match_here_length[OF True] by (cases as) simp_all
    have lm: "length ?m = ?n" using match_here_length[OF True] by simp
    have ih: "sub as repl ?r = foldr G (sub_positions as ?r) ?r"
      using shorter by (rule less)
    have sh: "foldr G (map (\<lambda>j. j + ?n) (sub_positions as ?r)) s =
          ?m @ foldr G (sub_positions as ?r) ?r"
      using foldr_shift[of G ?m "sub_positions as ?r" ?r, OF shift]
      by (simp only: lm append_take_drop_id)
    have "foldr G (sub_positions as s) s =
          G 0 (foldr G (map (\<lambda>j. j + ?n) (sub_positions as ?r)) s)"
      by (simp add: sub_positions_at_match[OF ne True])
    also have "\<dots> = G 0 (?m @ foldr G (sub_positions as ?r) ?r)"
      by (simp only: sh)
    also have "\<dots> = repl ?m @ foldr G (sub_positions as ?r) ?r"
      using match_here_take[OF True] lm by (rule base)
    finally show ?thesis
      by (simp add: sub_at_match[OF ne True] ih)
  next
    case False
    show ?thesis
    proof (cases s)
      case Nil
      then show ?thesis by simp
    next
      case (Cons c cs)
      have ih: "sub as repl cs = foldr G (sub_positions as cs) cs"
        by (rule less) (simp add: Cons)
      have "foldr G (map (\<lambda>j. j + length [c]) (sub_positions as cs)) ([c] @ cs) =
            [c] @ foldr G (sub_positions as cs) cs"
        by (rule foldr_shift) (rule shift)
      then show ?thesis using False by (simp add: Cons ih)
    qed
  qed
qed

lemma vtt_ne: "atoms VTT_TIMECODE_PATTERN \<noteq> []"
  by (simp add: vtt_atoms)

lemma srt_ne: "atoms SRT_TIMECODE_PATTERN \<noteq> []"
  by (simp add: srt_atoms)

lemma new_timecode_form:
  assumes "match_here (atoms VTT_TIMECODE_PATTERN) m"
  obtains b1 b2 c1 c2 d1 d2 d3 f1 f2 g1 g2 h1 h2 h3 where
    "new_timecode m =
      [CHR ''0'', CHR ''0'', CHR '':'', b1, b2, CHR '':'', c1, c2, CHR ''.'', d1, d2, d3,
       CHR '' '', CHR ''-'', CHR ''-'', CHR ''>'', CHR '' '',
       CHR ''0'', CHR ''0'', CHR '':'', f1, f2, CHR '':'', g1, g2, CHR ''.'', h1, h2, h3]"
    "list_all is_digit [b1, b2, c1, c2, d1, d2, d3, f1, f2, g1, g2, h1, h2, h3]"
proof -
  from assms obtain a1 a2 b1 b2 c1 c2 d1 d2 d3 e1 e2 f1 f2 g1 g2 h1 h2 h3 r where
    m: "m = [a1, a2, CHR '':'', b1, b2, CHR '':'', c1, c2, CHR ''.'', d1, d2, d3,
          CHR '' '', CHR ''-'', CHR ''-'', CHR ''>'', CHR '' '',
          e1, e2, CHR '':'', f1, f2, CHR '':'', g1, g2, CHR ''.'', h1, h2, h3] @ r"
    and d: "list_all is_digit [a1, a2, b1, b2, c1, c2, d1, d2, d3, e1, e2, f1, f2, g1, g2, h1, h2, h3]"
    by (rule vtt_match_explicit)
  have "new_timecode m =
      [CHR ''0'', CHR ''0'', CHR '':'', b1, b2, CHR '':'', c1, c2, CHR ''.'', d1, d2, d3,
       CHR '' '', CHR ''-'', CHR ''-'', CHR ''>'', CHR '' '',
       CHR ''0'', CHR ''0'', CHR '':'', f1, f2, CHR '':'', g1, g2, CHR ''.'', h1, h2, h3]"
    unfolding m by (rule new_timecode_explicit)
  moreover have "list_all is_digit [b1, b2, c1, c2, d1, d2, d3, f1, f2, g1, g2, h1, h2, h3]"
    using d by simp
  ultimately show thesis by (rule that)
qed


lemma new_timecode_matches:
  assumes "match_here (atoms VTT_TIMECODE_PATTERN) m"
  shows "match_here (atoms VTT_TIMECODE_PATTERN) (new_timecode m)"
proof -
  from assms obtain b1 b2 c1 c2 d1 d2 d3 f1 f2 g1 g2 h1 h2 h3 where
    t: "new_timecode m =
      [CHR ''0'', CHR ''0'', CHR '':'', b1, b2, CHR '':'', c1, c2, CHR ''.'', d1, d2, d3,
       CHR '' '', CHR ''-'', CHR ''-'', CHR ''>'', CHR '' '',
       CHR ''0'', CHR ''0'', CHR '':'', f1, f2, CHR '':'', g1, g2, CHR ''.'', h1, h2, h3]"
    and d: "list_all is_digit [b1, b2, c1, c2, d1, d2, d3, f1, f2, g1, g2, h1, h2, h3]"
    by (rule new_timecode_form)
  have z: "is_digit CHR ''0''" by (simp add: is_digit_def)
  show ?thesis
    unfolding t vtt_atoms using d z by simp
qed

lemma new_timecode_length:
  assumes "match_here (atoms VTT_TIMECODE_PATTERN) m"
  shows "length (new_timecode m) = 29"
proof -
  from assms obtain b1 b2 c1 c2 d1 d2 d3 f1 f2 g1 g2 h1 h2 h3 where
    t: "new_timecode m =
      [CHR ''0'', CHR ''0'', CHR '':'', b1, b2, CHR '':'', c1, c2, CHR ''.'', d1, d2, d3,
       CHR '' '', CHR ''-'', CHR ''-'', CHR ''>'', CHR '' '',
       CHR ''0'', CHR ''0'', CHR '':'', f1, f2, CHR '':'', g1, g2, CHR ''.'', h1, h2, h3]"
    by (rule new_timecode_form)
  show ?thesis unfolding t by simp
qed


lemma new_timecode_fixed:
  assumes "match_here (atoms VTT_TIMECODE_PATTERN) m"
  shows "new_timecode (new_timecode m) = new_timecode m"
proof -
  from assms obtain b1 b2 c1 c2 d1 d2 d3 f1 f2 g1 g2 h1 h2 h3 where
    t: "new_timecode m =
      [CHR ''0'', CHR ''0'', CHR '':'', b1, b2, CHR '':'', c1, c2, CHR ''.'', d1, d2, d3,
       CHR '' '', CHR ''-'', CHR ''-'', CHR ''>'', CHR '' '',
       CHR ''0'', CHR ''0'', CHR '':'', f1, f2, CHR '':'', g1, g2, CHR ''.'', h1, h2, h3]"
    by (rule new_timecode_form)
  show ?thesis
    unfolding t by (rule new_timecode_explicit[where r = "[]", simplified])
qed

lemma new_timecode_no_backslash:
  assumes "match_here (atoms VTT_TIMECODE_PATTERN) m"
  shows "CHR 0x5C \<notin> set (new_timecode m)"
proof -
  from assms obtain b1 b2 c1 c2 d1 d2 d3 f1 f2 g1 g2 h1 h2 h3 where
    t: "new_timecode m =
      [CHR ''0'', CHR ''0'', CHR '':'', b1, b2, CHR '':'', c1, c2, CHR ''.'', d1, d2, d3,
       CHR '' '', CHR ''-'', CHR ''-'', CHR ''>'', CHR '' '',
       CHR ''0'', CHR ''0'', CHR '':'', f1, f2, CHR '':'', g1, g2, CHR ''.'', h1, h2, h3]"
    and d: "list_all is_digit [b1, b2, c1, c2, d1, d2, d3, f1, f2, g1, g2, h1, h2, h3]"
    by (rule new_timecode_form)
  have nd: "\<not> is_digit (CHR 0x5C)" by (simp add: is_digit_def)
  show ?thesis
    unfolding t using d nd by auto
qed


lemma zero_hours_explicit:
  "zero_hours [a1, a2, CHR '':'', b1, b2, CHR '':'', c1, c2, CHR ''.'', d1, d2, d3,
          CHR '' '', CHR ''-'', CHR ''-'', CHR ''>'', CHR '' '',
          e1, e2, CHR '':'', f1, f2, CHR '':'', g1, g2, CHR ''.'', h1, h2, h3] =
     [CHR ''0'', CHR ''0'', CHR '':'', b1, b2, CHR '':'', c1, c2, CHR ''.'', d1, d2, d3,
          CHR '' '', CHR ''-'', CHR ''-'', CHR ''>'', CHR '' '',
          CHR ''0'', CHR ''0'', CHR '':'', f1, f2, CHR '':'', g1, g2, CHR ''.'', h1, h2, h3]"
  by (simp add: zero_hours_def)

lemma new_timecode_zero_hours:
  assumes "match_here (atoms VTT_TIMECODE_PATTERN) m" "length m = 29"
  shows "new_timecode m = zero_hours m"
proof -
  from assms(1) obtain a1 a2 b1 b2 c1 c2 d1 d2 d3 e1 e2 f1 f2 g1 g2 h1 h2 h3 r where
    m: "m = [a1, a2, CHR '':'', b1, b2, CHR '':'', c1, c2, CHR ''.'', d1, d2, d3,
          CHR '' '', CHR ''-'', CHR ''-'', CHR ''>'', CHR '' '',
          e1, e2, CHR '':'', f1, f2, CHR '':'', g1, g2, CHR ''.'', h1, h2, h3] @ r"
    by (rule vtt_match_explicit)
  with assms(2) have r: "r = []" by simp
  show ?thesis
    unfolding m r append_Nil2 zero_hours_explicit
    by (rule new_timecode_explicit[where r = "[]", simplified])
qed

lemma srt_repl_update:
  assumes "match_here (atoms SRT_TIMECODE_PATTERN) m" "length m = 12"
  shows "srt_repl m = m[8 := CHR ''.'']"
proof -
  from assms(1) obtain a1 a2 b1 b2 c1 c2 d1 d2 d3 r where
    m: "m = [a1, a2, CHR '':'', b1, b2, CHR '':'', c1, c2, CHR '','', d1, d2, d3] @ r"
    by (rule srt_match_explicit)
  with assms(2) have r: "r = []" by simp
  show ?thesis
    unfolding m r append_Nil2
    by (simp add: srt_repl_explicit[where r = "[]", simplified])
qed

lemma matched_occurs:
  assumes "occurs_at as s i"
  shows "match_here as (matched as s i)" and "length (matched as s i) = length as"
proof -
  from assms have m: "match_here as (drop i s)" by (simp add: occurs_at_def)
  from match_here_take[OF m] show "match_here as (matched as s i)"
    by (simp add: matched_def)
  from match_here_length[OF m] show "length (matched as s i) = length as"
    by (simp add: matched_def)
qed

lemma search_occurs: "search as s = Some i \<Longrightarrow> occurs_at as s i"
  by (simp add: occurs_at_def search_match)

section \<open>Properties of adjust_timecode_vtt\<close>

text \<open>
  Claim C8: for every input line \<open>x\<close>, applying the VTT hour-zeroing rewrite twice gives
  the same result as applying it once,
  \<open>adjust_timecode_vtt (adjust_timecode_vtt x) = adjust_timecode_vtt x\<close>.

  The first pass puts the same text of the same shape at every replaced match, so the
  second pass finds the matches at the same offsets, computes the same replacement from
  the first of them and writes it over itself.
\<close>

theorem adjust_timecode_vtt_idempotent:
  "adjust_timecode_vtt (adjust_timecode_vtt x) = adjust_timecode_vtt x"
proof (cases "search (atoms VTT_TIMECODE_PATTERN) x")
  case None
  then show ?thesis by (simp add: adjust_timecode_vtt_def)
next
  case (Some i)
  let ?p = "atoms VTT_TIMECODE_PATTERN"
  define T where "T = new_timecode (matched ?p x i)"
  define y where "y = sub ?p (\<lambda>_. T) x"
  have occ: "occurs_at ?p x i" using Some by (rule search_occurs)
  have mT: "match_here ?p T"
    unfolding T_def by (rule new_timecode_matches) (rule matched_occurs[OF occ])
  have lT: "length T = length ?p"
    unfolding T_def vtt_length by (rule new_timecode_length) (rule matched_occurs[OF occ])
  have fT: "new_timecode T = T"
    unfolding T_def by (rule new_timecode_fixed) (rule matched_occurs[OF occ])
  have ax: "adjust_timecode_vtt x = y"
    by (simp add: adjust_timecode_vtt_def Some T_def y_def)
  have "same_shape y x"
    unfolding y_def using vtt_ne
  proof (rule sub_shape)
    fix m assume "match_here ?p m" "length m = length ?p"
    then show "same_shape T m"
      using match_both_shape[OF vtt_lits _ mT _ lT] by simp
  qed
  from search_shape[OF vtt_lits this] have sy: "search ?p y = Some i"
    by (simp add: Some)
  have il: "i \<le> length x" using search_bound[OF Some] by simp
  have "y = take i x @ T @ sub ?p (\<lambda>_. T) (drop (i + length ?p) x)"
    unfolding y_def by (rule sub_first[OF vtt_ne Some])
  then have my: "matched ?p y i = T"
    using il lT by (simp add: matched_def)
  have "adjust_timecode_vtt y = sub ?p (\<lambda>_. T) y"
    by (simp add: adjust_timecode_vtt_def sy my fT)
  also have "\<dots> = y"
    unfolding y_def using vtt_ne vtt_lits mT lT by (rule sub_const_idem)
  finally show ?thesis by (simp add: ax)
qed




text \<open>
  Claim C9, as stated: on a line with two or more occurrences of the VTT range pattern,
  every occurrence is replaced by the hour-zeroed rewrite of the first one. An occurrence
  that begins inside a replaced match (in a chain \<open>A --> B --> C\<close>, the range \<open>B --> C\<close>
  begins at offset 17 of \<open>A --> B\<close>) is passed over by the scan and keeps its place in
  the text.
\<close>

theorem adjust_timecode_vtt_overlap_counterexample:
  "occurs_at (atoms VTT_TIMECODE_PATTERN) ''01:02:03.456 --> 04:05:06.789 --> 07:08:09.000'' 0 \<and>
   occurs_at (atoms VTT_TIMECODE_PATTERN) ''01:02:03.456 --> 04:05:06.789 --> 07:08:09.000'' 17 \<and>
   search (atoms VTT_TIMECODE_PATTERN) ''01:02:03.456 --> 04:05:06.789 --> 07:08:09.000'' = Some 0 \<and>
   matched (atoms VTT_TIMECODE_PATTERN)
     (adjust_timecode_vtt ''01:02:03.456 --> 04:05:06.789 --> 07:08:09.000'') 17 \<noteq>
   zero_hours (matched (atoms VTT_TIMECODE_PATTERN)
     ''01:02:03.456 --> 04:05:06.789 --> 07:08:09.000'' 0)"
  by code_simp

text \<open>
  Claim C9, amended: on every line with a match, each occurrence of the VTT range pattern
  that does not begin inside a match replaced before it is replaced by the hour-zeroed
  rewrite of the first occurrence; so on a line with two or more such occurrences the
  minutes, seconds and milliseconds of the later ones are overwritten by those of the
  first.
\<close>

theorem adjust_timecode_vtt_every_scanned_match:
  assumes first: "search (atoms VTT_TIMECODE_PATTERN) line = Some f"
    and occ: "occurs_at (atoms VTT_TIMECODE_PATTERN) line i"
    and free: "\<forall>j\<in>set (sub_positions (atoms VTT_TIMECODE_PATTERN) line). \<not> (j < i \<and> i < j + 29)"
  shows "matched (atoms VTT_TIMECODE_PATTERN) (adjust_timecode_vtt line) i =
         zero_hours (matched (atoms VTT_TIMECODE_PATTERN) line f)"
proof -
  let ?p = "atoms VTT_TIMECODE_PATTERN"
  let ?T = "new_timecode (matched ?p line f)"
  have occf: "occurs_at ?p line f" using first by (rule search_occurs)
  have lT: "length ?T = length ?p"
    unfolding vtt_length by (rule new_timecode_length) (rule matched_occurs[OF occf])
  from free have "\<forall>j\<in>set (sub_positions ?p line). \<not> (j < i \<and> i < j + length ?p)"
    by (simp add: vtt_length)
  with vtt_ne occ have mem: "i \<in> set (sub_positions ?p line)"
    by (rule sub_positions_complete)
  have "matched ?p (sub ?p (\<lambda>_. ?T) line) i = ?T"
    using vtt_ne lT mem by (rule sub_at_position)
  moreover have "?T = zero_hours (matched ?p line f)"
    using matched_occurs[OF occf] by (simp add: new_timecode_zero_hours vtt_length)
  ultimately show ?thesis
    by (simp add: adjust_timecode_vtt_def first)
qed

text \<open>
  The amended claim C9 at a line with two ranges: the second range, \<open>02:03:04.000 -->
  02:03:05.000\<close> at offset 30, comes out as the first one with its hours zeroed.
\<close>

theorem adjust_timecode_vtt_every_scanned_match_witness:
  "search (atoms VTT_TIMECODE_PATTERN)
     ''01:02:03.456 --> 01:02:05.789 02:03:04.000 --> 02:03:05.000'' = Some 0 \<and>
   occurs_at (atoms VTT_TIMECODE_PATTERN)
     ''01:02:03.456 --> 01:02:05.789 02:03:04.000 --> 02:03:05.000'' 30 \<and>
   sub_positions (atoms VTT_TIMECODE_PATTERN)
     ''01:02:03.456 --> 01:02:05.789 02:03:04.000 --> 02:03:05.000'' = [0, 30] \<and>
   matched (atoms VTT_TIMECODE_PATTERN)
     (adjust_timecode_vtt ''01:02:03.456 --> 01:02:05.789 02:03:04.000 --> 02:03:05.000'') 30 =
   ''00:02:03.456 --> 00:02:05.789''"
proof (intro conjI)
  let ?L = "''01:02:03.456 --> 01:02:05.789 02:03:04.000 --> 02:03:05.000''"
  let ?p = "atoms VTT_TIMECODE_PATTERN"
  show s: "search ?p ?L = Some 0" by code_simp
  show o: "occurs_at ?p ?L 30" by code_simp
  show ps: "sub_positions ?p ?L = [0, 30]" by code_simp
  have f: "\<forall>j\<in>set (sub_positions ?p ?L). \<not> (j < 30 \<and> 30 < j + 29)"
    unfolding ps by simp
  have z: "zero_hours (matched ?p ?L 0) = ''00:02:03.456 --> 00:02:05.789''" by code_simp
  from adjust_timecode_vtt_every_scanned_match[OF s o f] z
  show "matched ?p (adjust_timecode_vtt ?L) 30 = ''00:02:03.456 --> 00:02:05.789''"
    by (rule trans)
qed

section \<open>Properties of the comma-to-period rewrite\<close>

lemma occurs_at_occurrences:
  assumes "as \<noteq> []"
  shows "occurs_at as s i = (i \<in> set (occurrences as s))"
proof -
  have "i < length s" if "occurs_at as s i"
  proof -
    from that have "length as \<le> length (drop i s)"
      unfolding occurs_at_def by (rule match_here_length)
    with assms show ?thesis by (cases as) simp_all
  qed
  then show ?thesis by (auto simp add: occurrences_def)
qed

lemma srt_punctuate_foldr:
  "srt_punctuate line =
   foldr (\<lambda>j t. t[j + 8 := CHR ''.'']) (sub_positions (atoms SRT_TIMECODE_PATTERN) line) line"
  unfolding srt_punctuate_def using srt_ne
proof (rule sub_as_foldr)
  fix j :: nat and m t :: string
  show "(m @ t)[j + length m + 8 := CHR ''.''] = m @ t[j + 8 := CHR ''.'']"
    by (simp add: list_update_append)
next
  fix m t :: string
  assume "match_here (atoms SRT_TIMECODE_PATTERN) m" "length m = length (atoms SRT_TIMECODE_PATTERN)"
  then show "(m @ t)[0 + 8 := CHR ''.''] = srt_repl m @ t"
    by (simp add: srt_repl_update srt_length list_update_append)
qed

lemma srt_repl_length:
  assumes "match_here (atoms SRT_TIMECODE_PATTERN) m" "length m = length (atoms SRT_TIMECODE_PATTERN)"
  shows "length (srt_repl m) = length (atoms SRT_TIMECODE_PATTERN)"
  using assms by (simp add: srt_repl_update srt_length)

lemma match_here_undotted:
  assumes "list_all (\<lambda>a. \<not> atom_ok a CHR ''.'') as"
    and "list_all2 (\<lambda>b a. b = a \<or> b = CHR ''.'') t s"
    and "match_here as t"
  shows "match_here as s \<and> take (length as) s = take (length as) t"
  using assms
proof (induction as t arbitrary: s rule: match_here.induct)
  case (1 t)
  then show ?case by simp
next
  case (2 a as)
  then show ?case by simp
next
  case (3 a as c cs)
  from "3.prems"(2) obtain d ds where s: "s = d # ds"
    by (cases s) simp_all
  from "3.prems" have ok: "atom_ok a c" and rest: "match_here as cs" by simp_all
  from "3.prems"(1) ok have "c \<noteq> CHR ''.''" by auto
  with "3.prems"(2) have cd: "c = d" by (simp add: s)
  have "match_here as ds \<and> take (length as) ds = take (length as) cs"
    using "3.prems" rest by (intro "3.IH") (simp_all add: s)
  with ok cd show ?case by (simp add: s)
qed

lemma srt_punctuate_dots:
  "list_all2 (\<lambda>b a. b = a \<or> b = CHR ''.'') (srt_punctuate line) line"
  unfolding srt_punctuate_def using srt_ne
proof (rule sub_list_all2)
  fix m
  assume m: "match_here (atoms SRT_TIMECODE_PATTERN) m" "length m = length (atoms SRT_TIMECODE_PATTERN)"
  then have r: "srt_repl m = m[8 := CHR ''.'']"
    by (simp add: srt_repl_update srt_length)
  from m(2) have "8 < length m" by (simp add: srt_length)
  then show "list_all2 (\<lambda>b a. b = a \<or> b = CHR ''.'') (srt_repl m) m"
    unfolding r by (auto simp add: list_all2_conv_all_nth nth_list_update)
qed simp

lemma srt_comma_stays:
  assumes "match_here (atoms SRT_TIMECODE_PATTERN) m" "length m = 12"
  shows "m[8 := CHR ''.''] \<noteq> m"
proof -
  from assms(1) obtain a1 a2 b1 b2 c1 c2 d1 d2 d3 r where
    m: "m = [a1, a2, CHR '':'', b1, b2, CHR '':'', c1, c2, CHR '','', d1, d2, d3] @ r"
    by (rule srt_match_explicit)
  with assms(2) have r: "r = []" by simp
  show ?thesis unfolding m r append_Nil2 by simp
qed

text \<open>
  Claim C2, as stated: every occurrence of \<open>HH:MM:SS,mmm\<close> in the line has its comma
  replaced by a period. An occurrence that begins inside a rewritten one (its hour digits
  are the last two millisecond digits of the one before, offset 10) is passed over by the
  scan and keeps its comma.
\<close>

theorem srt_punctuate_overlap_counterexample:
  "occurs_at (atoms SRT_TIMECODE_PATTERN) ''00:00:01,000:00:02,500'' 0 \<and>
   occurs_at (atoms SRT_TIMECODE_PATTERN) ''00:00:01,000:00:02,500'' 10 \<and>
   srt_punctuate ''00:00:01,000:00:02,500'' = ''00:00:01.000:00:02,500'' \<and>
   matched (atoms SRT_TIMECODE_PATTERN) (srt_punctuate ''00:00:01,000:00:02,500'') 10 \<noteq>
     (matched (atoms SRT_TIMECODE_PATTERN) ''00:00:01,000:00:02,500'' 10)[8 := CHR ''.'']"
  by code_simp

text \<open>
  Claim C2, amended: the rewrite changes nothing but commas into periods, each at offset 8
  of a match found by the scan, so all digits (the hour value included) and all
  surrounding text are preserved; and every occurrence of \<open>HH:MM:SS,mmm\<close> that does not
  begin inside a match rewritten before it is such a match and comes out with a period
  for its comma. In particular both timecodes of a full range are rewritten.
\<close>

theorem srt_punctuate_scanned_occurrences:
  "srt_punctuate line =
     foldr (\<lambda>j t. t[j + 8 := CHR ''.'']) (sub_positions (atoms SRT_TIMECODE_PATTERN) line) line \<and>
   (\<forall>i. occurs_at (atoms SRT_TIMECODE_PATTERN) line i \<and>
        (\<forall>j\<in>set (sub_positions (atoms SRT_TIMECODE_PATTERN) line). \<not> (j < i \<and> i < j + 12)) \<longrightarrow>
        i \<in> set (sub_positions (atoms SRT_TIMECODE_PATTERN) line) \<and>
        matched (atoms SRT_TIMECODE_PATTERN) (srt_punctuate line) i =
          (matched (atoms SRT_TIMECODE_PATTERN) line i)[8 := CHR ''.''])"
proof (intro conjI allI impI)
  let ?p = "atoms SRT_TIMECODE_PATTERN"
  show "srt_punctuate line = foldr (\<lambda>j t. t[j + 8 := CHR ''.'']) (sub_positions ?p line) line"
    by (rule srt_punctuate_foldr)
  fix i
  assume a: "occurs_at ?p line i \<and> (\<forall>j\<in>set (sub_positions ?p line). \<not> (j < i \<and> i < j + 12))"
  then have occ: "occurs_at ?p line i" by simp
  from a have "\<forall>j\<in>set (sub_positions ?p line). \<not> (j < i \<and> i < j + length ?p)"
    by (simp add: srt_length)
  with srt_ne occ show mem: "i \<in> set (sub_positions ?p line)"
    by (rule sub_positions_complete)
  have "matched ?p (sub ?p srt_repl line) i = srt_repl (matched ?p line i)"
    using srt_ne srt_repl_length mem by (rule sub_at_position)
  also have "\<dots> = (matched ?p line i)[8 := CHR ''.'']"
    using matched_occurs[OF occ] by (simp add: srt_repl_update srt_length)
  finally show "matched ?p (srt_punctuate line) i = (matched ?p line i)[8 := CHR ''.'']"
    by (simp add: srt_punctuate_def)
qed

text \<open>The amended claim C2 at a full range with hour value 10: both ends are rewritten.\<close>

theorem srt_punctuate_scanned_occurrences_witness:
  "occurs_at (atoms SRT_TIMECODE_PATTERN) ''10:00:01,000 --> 10:00:02,500'' 17 \<and>
   sub_positions (atoms SRT_TIMECODE_PATTERN) ''10:00:01,000 --> 10:00:02,500'' = [0, 17] \<and>
   srt_punctuate ''10:00:01,000 --> 10:00:02,500'' = ''10:00:01.000 --> 10:00:02.500'' \<and>
   matched (atoms SRT_TIMECODE_PATTERN) (srt_punctuate ''10:00:01,000 --> 10:00:02,500'') 17 =
     ''10:00:02.500''"
proof (intro conjI)
  let ?L = "''10:00:01,000 --> 10:00:02,500''"
  let ?p = "atoms SRT_TIMECODE_PATTERN"
  note t = srt_punctuate_scanned_occurrences[of ?L]
  show o: "occurs_at ?p ?L 17" by code_simp
  show ps: "sub_positions ?p ?L = [0, 17]" by code_simp
  have f: "foldr (\<lambda>j t. t[j + 8 := CHR ''.'']) (sub_positions ?p ?L) ?L =
           ''10:00:01.000 --> 10:00:02.500''"
    by code_simp
  from t[THEN conjunct1] f show "srt_punctuate ?L = ''10:00:01.000 --> 10:00:02.500''"
    by (rule trans)
  have "\<forall>j\<in>set (sub_positions ?p ?L). \<not> (j < 17 \<and> 17 < j + 12)"
    unfolding ps by simp
  with o have pre: "occurs_at ?p ?L 17 \<and>
      (\<forall>j\<in>set (sub_positions ?p ?L). \<not> (j < 17 \<and> 17 < j + 12))"
    by (rule conjI)
  from t[THEN conjunct2, THEN spec, of 17, THEN mp, OF pre]
  have m: "matched ?p (srt_punctuate ?L) 17 = (matched ?p ?L 17)[8 := CHR ''.'']"
    by (rule conjunct2)
  have u: "(matched ?p ?L 17)[8 := CHR ''.''] = ''10:00:02.500''" by code_simp
  from m u show "matched ?p (srt_punctuate ?L) 17 = ''10:00:02.500''"
    by (rule trans)
qed

text \<open>
  Claim C10, as stated: for every line \<open>x\<close>, the comma-to-period rewrite applied twice
  equals the rewrite applied once. When an occurrence begins inside a rewritten one, the
  first pass leaves it with its comma and the second pass rewrites it.
\<close>

theorem srt_punctuate_not_idempotent_counterexample:
  "srt_punctuate ''00:00:01,000:00:02,500'' = ''00:00:01.000:00:02,500'' \<and>
   srt_punctuate (srt_punctuate ''00:00:01,000:00:02,500'') = ''00:00:01.000:00:02.500'' \<and>
   srt_punctuate (srt_punctuate ''00:00:01,000:00:02,500'') \<noteq> srt_punctuate ''00:00:01,000:00:02,500''"
  by code_simp

text \<open>
  Claim C10, amended: for every line in which no occurrence of \<open>HH:MM:SS,mmm\<close> begins
  inside another one (any two occurrences lie at least 12 characters apart), the rewrite
  applied twice equals the rewrite applied once: then every occurrence is rewritten by
  the first pass, holds a period instead of its comma and no longer matches.
\<close>

theorem srt_punctuate_idempotent_without_overlap:
  assumes apart: "\<forall>i k. occurs_at (atoms SRT_TIMECODE_PATTERN) x i \<and>
      occurs_at (atoms SRT_TIMECODE_PATTERN) x k \<and> i < k \<longrightarrow> i + 12 \<le> k"
  shows "srt_punctuate (srt_punctuate x) = srt_punctuate x"
proof -
  let ?p = "atoms SRT_TIMECODE_PATTERN"
  let ?y = "srt_punctuate x"
  have "search ?p ?y = None"
  proof (rule ccontr)
    assume "search ?p ?y \<noteq> None"
    then obtain k where "search ?p ?y = Some k" by auto
    then have my: "match_here ?p (drop k ?y)" by (rule search_match)
    have "list_all2 (\<lambda>b a. b = a \<or> b = CHR ''.'') (drop k ?y) (drop k x)"
      using srt_punctuate_dots by (rule list_all2_dropI)
    with my have mx: "match_here ?p (drop k x)"
      and same: "take (length ?p) (drop k x) = take (length ?p) (drop k ?y)"
      using match_here_undotted[of ?p "drop k ?y" "drop k x"]
      by (simp_all add: srt_atoms is_digit_def)
    from mx have occ: "occurs_at ?p x k" by (simp add: occurs_at_def)
    have "\<forall>j\<in>set (sub_positions ?p x). \<not> (j < k \<and> k < j + length ?p)"
    proof
      fix j assume "j \<in> set (sub_positions ?p x)"
      with srt_ne have "occurs_at ?p x j" by (rule sub_positions_occur)
      with apart occ have "j < k \<longrightarrow> j + 12 \<le> k" by blast
      then show "\<not> (j < k \<and> k < j + length ?p)" by (auto simp add: srt_length)
    qed
    with srt_ne occ have mem: "k \<in> set (sub_positions ?p x)"
      by (rule sub_positions_complete)
    have "matched ?p (sub ?p srt_repl x) k = srt_repl (matched ?p x k)"
      using srt_ne _ mem
    proof (rule sub_at_position)
      fix m assume "match_here ?p m" "length m = length ?p"
      then show "length (srt_repl m) = length ?p"
        by (simp add: srt_repl_update srt_length)
    qed
    also have "\<dots> = (matched ?p x k)[8 := CHR ''.'']"
      using matched_occurs[OF occ] by (simp add: srt_repl_update srt_length)
    finally have "(matched ?p x k)[8 := CHR ''.''] = matched ?p x k"
      using same by (simp add: matched_def srt_punctuate_def)
    moreover have "(matched ?p x k)[8 := CHR ''.''] \<noteq> matched ?p x k"
      using matched_occurs[OF occ] by (intro srt_comma_stays) (simp_all add: srt_length)
    ultimately show False by contradiction
  qed
  with srt_ne show ?thesis
    unfolding srt_punctuate_def[of ?y] by (rule sub_no_match)
qed

text \<open>The amended claim C10 at a full range, whose two occurrences lie 17 apart.\<close>

theorem srt_punctuate_idempotent_without_overlap_witness:
  "occurrences (atoms SRT_TIMECODE_PATTERN) ''10:00:01,000 --> 10:00:02,500'' = [0, 17] \<and>
   srt_punctuate (srt_punctuate ''10:00:01,000 --> 10:00:02,500'') =
     srt_punctuate ''10:00:01,000 --> 10:00:02,500''"
proof (intro conjI)
  let ?L = "''10:00:01,000 --> 10:00:02,500''"
  let ?p = "atoms SRT_TIMECODE_PATTERN"
  show os: "occurrences ?p ?L = [0, 17]" by code_simp
  have "\<forall>i k. occurs_at ?p ?L i \<and> occurs_at ?p ?L k \<and> i < k \<longrightarrow> i + 12 \<le> k"
    unfolding occurs_at_occurrences[OF srt_ne] os by auto
  then show "srt_punctuate (srt_punctuate ?L) = srt_punctuate ?L"
    by (rule srt_punctuate_idempotent_without_overlap)
qed

section \<open>Properties of convert_srt_to_vtt\<close>

lemma convert_lines_concat:
  "convert_lines written lines = written @ concat (map srt_punctuate lines)"
  by (induction lines arbitrary: written) simp_all

lemma srt_repl_commas_only:
  assumes "match_here (atoms SRT_TIMECODE_PATTERN) m" "length m = 12"
  shows "list_all2 (\<lambda>b a. b = a \<or> (a = CHR '','' \<and> b = CHR ''.'')) (srt_repl m) m"
proof -
  from assms(1) obtain a1 a2 b1 b2 c1 c2 d1 d2 d3 r where
    m: "m = [a1, a2, CHR '':'', b1, b2, CHR '':'', c1, c2, CHR '','', d1, d2, d3] @ r"
    by (rule srt_match_explicit)
  with assms(2) have r: "r = []" by simp
  show ?thesis
    unfolding m r append_Nil2 srt_repl_explicit[where r = "[]", simplified] by simp
qed

lemma srt_punctuate_commas_only:
  "list_all2 (\<lambda>b a. b = a \<or> (a = CHR '','' \<and> b = CHR ''.'')) (srt_punctuate line) line"
  unfolding srt_punctuate_def using srt_ne
proof (rule sub_list_all2)
  fix m
  assume "match_here (atoms SRT_TIMECODE_PATTERN) m" "length m = length (atoms SRT_TIMECODE_PATTERN)"
  then show "list_all2 (\<lambda>b a. b = a \<or> (a = CHR '','' \<and> b = CHR ''.'')) (srt_repl m) m"
    by (intro srt_repl_commas_only) (simp_all add: srt_length)
qed simp

text \<open>
  Claim C3: for every sequence of source lines, the empty one included, the text that
  \<open>convert_srt_to_vtt\<close> writes is the header \<open>WEBVTT\<close> and a blank line, followed by each
  input line in order with the comma-to-period rewrite applied; so it always begins with
  the header. No hour is zeroed: a written line differs from its source line only where
  a comma has become a period. For a file that can be read and an output path, other
  than the input's, that can be written, the call returns \<open>True\<close> and leaves this text
  in the output file.
\<close>

theorem convert_srt_to_vtt_output:
  "convert_lines WEBVTT_header lines = WEBVTT_header @ concat (map srt_punctuate lines) \<and>
   convert_lines WEBVTT_header [] = WEBVTT_header \<and>
   prefix WEBVTT_header (convert_lines WEBVTT_header lines) \<and>
   list_all2 (\<lambda>b a. b = a \<or> (a = CHR '','' \<and> b = CHR ''.'')) (srt_punctuate line) line \<and>
   (open_read fs input_path = Some text \<and> output_path \<noteq> input_path \<and>
    fs output_path \<noteq> Some Dir \<longrightarrow>
      convert_srt_to_vtt fs input_path output_path =
        (True, fs(output_path \<mapsto>
           File (WEBVTT_header @ concat (map srt_punctuate (file_lines text))))))"
proof (intro conjI impI)
  show "convert_lines WEBVTT_header lines = WEBVTT_header @ concat (map srt_punctuate lines)"
    by (rule convert_lines_concat)
  show "convert_lines WEBVTT_header [] = WEBVTT_header" by simp
  show "prefix WEBVTT_header (convert_lines WEBVTT_header lines)"
    by (simp add: convert_lines_concat)
  show "list_all2 (\<lambda>b a. b = a \<or> (a = CHR '','' \<and> b = CHR ''.'')) (srt_punctuate line) line"
    by (rule srt_punctuate_commas_only)
next
  assume a: "open_read fs input_path = Some text \<and> output_path \<noteq> input_path \<and>
    fs output_path \<noteq> Some Dir"
  then have w: "open_write fs output_path = Some (fs(output_path \<mapsto> File []))"
    by (auto simp add: open_write_def split: option.splits node.splits)
  from a w show "convert_srt_to_vtt fs input_path output_path =
      (True, fs(output_path \<mapsto>
         File (WEBVTT_header @ concat (map srt_punctuate (file_lines text)))))"
    by (simp add: convert_srt_to_vtt_def convert_lines_concat)
qed

text \<open>
  Claim C3 on the conversion scenario of the specification: \<open>clip.srt\<close> becomes a file
  that starts with the header and holds the cue with periods. A line in VTT form keeps
  its hours under the rewrite, where \<open>adjust_timecode_vtt\<close> would zero them.
\<close>

theorem convert_srt_to_vtt_output_witness:
  "open_read clip_srt ''in/clip.srt'' =
     Some ''1\<newline>00:00:01,000 --> 00:00:02,500\<newline>Hi\<newline>\<newline>'' \<and>
   clip_srt ''out/clip_1.vtt'' \<noteq> Some Dir \<and>
   convert_srt_to_vtt clip_srt ''in/clip.srt'' ''out/clip_1.vtt'' =
     (True, clip_srt(''out/clip_1.vtt'' \<mapsto> File
        ''WEBVTT\<newline>\<newline>1\<newline>00:00:01.000 --> 00:00:02.500\<newline>Hi\<newline>\<newline>'')) \<and>
   srt_punctuate ''01:02:03.456 --> 01:02:05.789'' = ''01:02:03.456 --> 01:02:05.789'' \<and>
   adjust_timecode_vtt ''01:02:03.456 --> 01:02:05.789'' = ''00:02:03.456 --> 00:02:05.789''"
proof (intro conjI)
  let ?text = "''1\<newline>00:00:01,000 --> 00:00:02,500\<newline>Hi\<newline>\<newline>''"
  show r: "open_read clip_srt ''in/clip.srt'' = Some ?text"
    by (simp add: open_read_def clip_srt_def)
  show w: "clip_srt ''out/clip_1.vtt'' \<noteq> Some Dir"
    by (simp add: clip_srt_def)
  have d: "''out/clip_1.vtt'' \<noteq> ''in/clip.srt''" by simp
  have c: "WEBVTT_header @ concat (map srt_punctuate (file_lines ?text)) =
      ''WEBVTT\<newline>\<newline>1\<newline>00:00:01.000 --> 00:00:02.500\<newline>Hi\<newline>\<newline>''"
    by code_simp
  note t = convert_srt_to_vtt_output[of "[]" "[]" clip_srt "''in/clip.srt''" ?text
      "''out/clip_1.vtt''"]
  from r d w have "open_read clip_srt ''in/clip.srt'' = Some ?text \<and>
      ''out/clip_1.vtt'' \<noteq> ''in/clip.srt'' \<and> clip_srt ''out/clip_1.vtt'' \<noteq> Some Dir"
    by (intro conjI)
  with t have "convert_srt_to_vtt clip_srt ''in/clip.srt'' ''out/clip_1.vtt'' =
      (True, clip_srt(''out/clip_1.vtt'' \<mapsto>
         File (WEBVTT_header @ concat (map srt_punctuate (file_lines ?text)))))"
    by blast
  then show "convert_srt_to_vtt clip_srt ''in/clip.srt'' ''out/clip_1.vtt'' =
      (True, clip_srt(''out/clip_1.vtt'' \<mapsto> File
        ''WEBVTT\<newline>\<newline>1\<newline>00:00:01.000 --> 00:00:02.500\<newline>Hi\<newline>\<newline>''))"
    by (simp only: c)
  show "srt_punctuate ''01:02:03.456 --> 01:02:05.789'' = ''01:02:03.456 --> 01:02:05.789''"
    by code_simp
  show "adjust_timecode_vtt ''01:02:03.456 --> 01:02:05.789'' = ''00:02:03.456 --> 00:02:05.789''"
    by code_simp
qed

section \<open>Properties of the file names\<close>

text \<open>
  Claim C4 (the code departs from it): the base name is the file name with a trailing
  \<open>.mp4.vtt\<close>, else a trailing \<open>.vtt\<close>, removed (a trailing \<open>.srt\<close> for the conversion),
  and no other part of the name changes. \<open>process_files\<close> derives it with
  \<open>str.replace\<close>, which removes the extension wherever it stands in the name: of the
  selected file \<open>lecture.vtt.final.vtt\<close> it makes \<open>lecture.final\<close> where the claim gives
  \<open>lecture.vtt.final\<close>, and likewise for \<open>notes.srt.old.srt\<close>.
\<close>

theorem base_name_removes_inner_extension:
  "select_files ''vtt'' [''lecture.vtt.final.vtt''] = [''lecture.vtt.final.vtt''] \<and>
   base_name ''vtt'' ''lecture.vtt.final.vtt'' = ''lecture.final'' \<and>
   spec_base_name ''vtt'' ''lecture.vtt.final.vtt'' = ''lecture.vtt.final'' \<and>
   base_name ''vtt'' ''lecture.vtt.final.vtt'' \<noteq> spec_base_name ''vtt'' ''lecture.vtt.final.vtt'' \<and>
   select_files ''srt'' [''notes.srt.old.srt''] = [''notes.srt.old.srt''] \<and>
   base_name ''srt'' ''notes.srt.old.srt'' = ''notes.old'' \<and>
   spec_base_name ''srt'' ''notes.srt.old.srt'' = ''notes.srt.old''"
  by code_simp

lemma str_nonempty: "str n \<noteq> []"
  by (subst str.simps) simp

lemma digit_not_zero: "0 < n \<Longrightarrow> n < 10 \<Longrightarrow> ''0123456789'' ! n \<noteq> CHR ''0''"
proof -
  assume "0 < n" "n < 10"
  then have "n \<in> {1, 2, 3, 4, 5, 6, 7, 8, 9}" by auto
  then show ?thesis by auto
qed

lemma str_no_leading_zero: "0 < n \<Longrightarrow> hd (str n) \<noteq> CHR ''0''"
proof (induction n rule: str.induct)
  case (1 n)
  show ?case
  proof (cases "n < 10")
    case True
    then have s: "str n = [''0123456789'' ! n]"
      by (subst str.simps) (simp only: if_True)
    from digit_not_zero[OF "1.prems" True] show ?thesis
      unfolding s list.sel .
  next
    case False
    then have s: "str n = str (n div 10) @ [''0123456789'' ! (n mod 10)]"
      by (subst str.simps) (simp only: if_False)
    from False have "0 < n div 10" by simp
    with False "1.IH" have "hd (str (n div 10)) \<noteq> CHR ''0''" by simp
    then show ?thesis
      unfolding s hd_append2[OF str_nonempty] .
  qed
qed

text \<open>
  Claim C5, as stated: the output name is \<open>{prefix}{index}.vtt\<close> with the configured
  prefix under sequential numbering, and \<open>{suppliedName}_{index}.vtt\<close> for a non-blank
  answer under interactive rename, that is, the join of the output directory with
  \<open>spec_output_name\<close>. \<open>rename_file\<close> strips both the prefix and the answer of
  surrounding whitespace first: with the prefix \<open>" ep"\<close> the first file is named
  \<open>ep1.vtt\<close>, not \<open>" ep1.vtt"\<close>.
\<close>

theorem rename_file_unstripped_counterexample:
  "rename_file (default_config\<lparr>sequential_var := True, prefix_var := '' ep''\<rparr>)
     (run_env [] None) ''out'' ''movie'' 1 = ''out/ep1.vtt'' \<and>
   path_join (run_env [] None) ''out''
     (spec_output_name (default_config\<lparr>sequential_var := True, prefix_var := '' ep''\<rparr>)
        (askstring (run_env [] None) 1) ''movie'' 1) = ''out/ ep1.vtt'' \<and>
   rename_file (default_config\<lparr>sequential_var := True, prefix_var := '' ep''\<rparr>)
     (run_env [] None) ''out'' ''movie'' 1 \<noteq>
   path_join (run_env [] None) ''out''
     (spec_output_name (default_config\<lparr>sequential_var := True, prefix_var := '' ep''\<rparr>)
        (askstring (run_env [] None) 1) ''movie'' 1)"
  by code_simp

text \<open>
  Claim C5, amended: for every base name, 1-based index and configuration the output
  name follows exactly one of three policies, sequential numbering before interactive
  rename before the default. Sequential numbering gives \<open>{prefix}{index}.vtt\<close>, the
  prefix being the configured one stripped of surrounding whitespace (possibly empty)
  and the index written without leading zeros; interactive rename gives \<open>{base}.vtt\<close>
  when the dialog is cancelled or the answer is blank and \<open>{answer}_{index}.vtt\<close>
  otherwise, the answer stripped of surrounding whitespace; the default gives
  \<open>{base}_{index}.vtt\<close>. The name is joined with the output directory.
\<close>

theorem rename_file_policy:
  "rename_file cfg e output_directory base index =
     path_join e output_directory (stripped_output_name cfg (askstring e index) base index) \<and>
   (0 < index \<longrightarrow> hd (str index) \<noteq> CHR ''0'')"
  by (simp add: rename_file_def stripped_output_name_def Let_def str_no_leading_zero
      split: option.split)

text \<open>
  The amended claim C5 on the names of the specification: \<open>ep3.vtt\<close> under sequential
  numbering (which wins over the rename option), \<open>movie_2.vtt\<close> by default, and
  \<open>clip_2.vtt\<close> for the answer \<open>" clip "\<close>.
\<close>

theorem rename_file_policy_witness:
  "rename_file (default_config\<lparr>sequential_var := True, rename_var := True, prefix_var := ''ep''\<rparr>)
     (run_env [] None) ''out'' ''movie'' 3 = ''out/ep3.vtt'' \<and>
   rename_file default_config (run_env [] None) ''out'' ''movie'' 2 = ''out/movie_2.vtt'' \<and>
   rename_file (default_config\<lparr>rename_var := True\<rparr>)
     ((run_env [] None)\<lparr>askstring := (\<lambda>_. Some '' clip '')\<rparr>) ''out'' ''movie'' 2 =
     ''out/clip_2.vtt'' \<and>
   hd (str 12) \<noteq> CHR ''0''"
proof (intro conjI)
  let ?e = "run_env [] None"
  let ?seq = "default_config\<lparr>sequential_var := True, rename_var := True, prefix_var := ''ep''\<rparr>"
  let ?ask = "?e\<lparr>askstring := (\<lambda>_. Some '' clip '')\<rparr>"
  have a: "path_join ?e ''out'' (stripped_output_name ?seq (askstring ?e 3) ''movie'' 3) =
      ''out/ep3.vtt''"
    by code_simp
  from rename_file_policy[of ?seq ?e "''out''" "''movie''" 3, THEN conjunct1] a
  show "rename_file ?seq ?e ''out'' ''movie'' 3 = ''out/ep3.vtt''"
    by (rule trans)
  have b: "path_join ?e ''out'' (stripped_output_name default_config (askstring ?e 2) ''movie'' 2) =
      ''out/movie_2.vtt''"
    by code_simp
  from rename_file_policy[of default_config ?e "''out''" "''movie''" 2, THEN conjunct1] b
  show "rename_file default_config ?e ''out'' ''movie'' 2 = ''out/movie_2.vtt''"
    by (rule trans)
  have c: "path_join ?ask ''out''
      (stripped_output_name (default_config\<lparr>rename_var := True\<rparr>) (askstring ?ask 2) ''movie'' 2) =
      ''out/clip_2.vtt''"
    by code_simp
  from rename_file_policy[of "default_config\<lparr>rename_var := True\<rparr>" ?ask "''out''" "''movie''" 2,
      THEN conjunct1] c
  show "rename_file (default_config\<lparr>rename_var := True\<rparr>) ?ask ''out'' ''movie'' 2 =
      ''out/clip_2.vtt''"
    by (rule trans)
  have "(0::nat) < 12" by simp
  with rename_file_policy[of default_config ?e "''out''" "''movie''" 12, THEN conjunct2]
  show "hd (str 12) \<noteq> CHR ''0''"
    by (rule mp)
qed

section \<open>Properties of the batch\<close>






lemma sequential_loop_foldl:
  "sequential_loop cfg e choice input_dir output_dir entries st =
   foldl (\<lambda>s entry. sequential_step cfg e choice input_dir output_dir entry s) st entries"
  by (induction entries arbitrary: st) simp_all






text \<open>
  Claim C7, as stated: the thread pool is used exactly when multithreading is enabled and
  more than one file is queued, and its size is \<open>min(available parallelism, 4)\<close> and
  never less than 2. The \<open>2\<close> in \<open>os.cpu_count() or 2\<close> stands in for an unknown count
  only: on a machine that reports one processor the pool has one worker.
\<close>

theorem process_files_single_worker_counterexample:
  "use_threads_var (default_config\<lparr>use_threads_var := True\<rparr>) \<and>
   length (select_files ''vtt'' (listdir (run_env [''a.vtt'', ''b.vtt''] (Some 1)))) = 2 \<and>
   map_option fst
     (process_files (default_config\<lparr>use_threads_var := True\<rparr>)
        (run_env [''a.vtt'', ''b.vtt''] (Some 1)) broken_then_good ''vtt'' ''in'' ''out'') =
     Some (Some 1)"
  by code_simp

text \<open>
  Claim C7, amended: for every batch with a matching file, the thread pool is used
  exactly when multithreading is enabled and more than one file is queued; its size is
  then \<open>min(p, 4)\<close>, where \<open>p\<close> is the processor count, or 2 when the count is unknown
  (\<open>None\<close> or 0), so it lies between 1 and 4 and is at least 2 unless one processor is
  reported. Otherwise the files are processed one at a time in enumeration order: the
  final state is the loop body folded over the enumerated files from the left.
\<close>

theorem process_files_pool:
  assumes "select_files choice (listdir e) \<noteq> []"
  shows "\<exists>pool st. process_files cfg e fs choice input_dir output_dir = Some (pool, st) \<and>
     ((pool \<noteq> None) = (use_threads_var cfg \<and> 1 < length (select_files choice (listdir e)))) \<and>
     (\<forall>n. pool = Some n \<longrightarrow>
        n = min (case cpu_count e of None \<Rightarrow> 2 | Some c \<Rightarrow> if c = 0 then 2 else c) 4 \<and>
        1 \<le> n \<and> n \<le> 4 \<and> (cpu_count e \<noteq> Some 1 \<longrightarrow> 2 \<le> n)) \<and>
     (pool = None \<longrightarrow>
        st = foldl (\<lambda>s entry. sequential_step cfg e choice input_dir output_dir entry s)
               (initial_state fs) (enumerate1 (select_files choice (listdir e))))"
proof (cases "use_threads_var cfg \<and> 1 < length (select_files choice (listdir e))")
  case True
  have "1 \<le> max_workers c \<and> max_workers c \<le> 4 \<and> (c \<noteq> Some 1 \<longrightarrow> 2 \<le> max_workers c)" for c
    by (auto simp add: max_workers_def split: option.split)
  with True assms show ?thesis
    by (simp add: process_files_def Let_def max_workers_def)
next
  case False
  with assms show ?thesis
    by (auto simp add: process_files_def Let_def sequential_loop_foldl)
qed

text \<open>
  The amended claim C7 on two files: with multithreading and eight processors the pool
  has four workers; without multithreading no pool is used.
\<close>

theorem process_files_pool_witness:
  "select_files ''vtt'' (listdir (run_env [''a.vtt'', ''b.vtt''] (Some 8))) \<noteq> [] \<and>
   (\<exists>pool st.
      process_files (default_config\<lparr>use_threads_var := True\<rparr>)
        (run_env [''a.vtt'', ''b.vtt''] (Some 8)) broken_then_good ''vtt'' ''in'' ''out'' =
        Some (pool, st) \<and>
      ((pool \<noteq> None) =
         (use_threads_var (default_config\<lparr>use_threads_var := True\<rparr>) \<and>
          1 < length (select_files ''vtt'' (listdir (run_env [''a.vtt'', ''b.vtt''] (Some 8)))))) \<and>
      (\<forall>n. pool = Some n \<longrightarrow>
         n = min (case cpu_count (run_env [''a.vtt'', ''b.vtt''] (Some 8)) of
                    None \<Rightarrow> 2 | Some c \<Rightarrow> if c = 0 then 2 else c) 4 \<and>
         1 \<le> n \<and> n \<le> 4 \<and>
         (cpu_count (run_env [''a.vtt'', ''b.vtt''] (Some 8)) \<noteq> Some 1 \<longrightarrow> 2 \<le> n)) \<and>
      (pool = None \<longrightarrow>
         st = foldl (\<lambda>s entry. sequential_step (default_config\<lparr>use_threads_var := True\<rparr>)
                  (run_env [''a.vtt'', ''b.vtt''] (Some 8)) ''vtt'' ''in'' ''out'' entry s)
                (initial_state broken_then_good)
                (enumerate1 (select_files ''vtt''
                   (listdir (run_env [''a.vtt'', ''b.vtt''] (Some 8))))))) \<and>
   map_option fst
     (process_files (default_config\<lparr>use_threads_var := True\<rparr>)
        (run_env [''a.vtt'', ''b.vtt''] (Some 8)) broken_then_good ''vtt'' ''in'' ''out'') =
     Some (Some 4) \<and>
   map_option fst
     (process_files default_config
        (run_env [''a.vtt'', ''b.vtt''] (Some 8)) broken_then_good ''vtt'' ''in'' ''out'') =
     Some None"
proof (intro conjI)
  let ?e = "run_env [''a.vtt'', ''b.vtt''] (Some 8)"
  have sel: "select_files ''vtt'' (listdir ?e) = [''a.vtt'', ''b.vtt'']"
    by code_simp
  then show ne: "select_files ''vtt'' (listdir ?e) \<noteq> []"
    by (simp only: list.distinct not_False_eq_True)
  show "\<exists>pool st.
      process_files (default_config\<lparr>use_threads_var := True\<rparr>) ?e broken_then_good
        ''vtt'' ''in'' ''out'' = Some (pool, st) \<and>
      ((pool \<noteq> None) =
         (use_threads_var (default_config\<lparr>use_threads_var := True\<rparr>) \<and>
          1 < length (select_files ''vtt'' (listdir ?e)))) \<and>
      (\<forall>n. pool = Some n \<longrightarrow>
         n = min (case cpu_count ?e of None \<Rightarrow> 2 | Some c \<Rightarrow> if c = 0 then 2 else c) 4 \<and>
         1 \<le> n \<and> n \<le> 4 \<and> (cpu_count ?e \<noteq> Some 1 \<longrightarrow> 2 \<le> n)) \<and>
      (pool = None \<longrightarrow>
         st = foldl (\<lambda>s entry. sequential_step (default_config\<lparr>use_threads_var := True\<rparr>)
                  ?e ''vtt'' ''in'' ''out'' entry s)
                (initial_state broken_then_good)
                (enumerate1 (select_files ''vtt'' (listdir ?e))))"
    using ne by (rule process_files_pool)
  show "map_option fst
     (process_files (default_config\<lparr>use_threads_var := True\<rparr>) ?e broken_then_good
        ''vtt'' ''in'' ''out'') = Some (Some 4)"
    by code_simp
  show "map_option fst
     (process_files default_config ?e broken_then_good ''vtt'' ''in'' ''out'') = Some None"
    by code_simp
qed

end
